theory Spec2Isabelle
  imports Complex_Main "HOL-Library.Word" "HOL-Library.Log_Nat"
begin

section \<open>Imagify: the image-quality analysis and encoding-search core of app.js\<close>

text \<open>
  The development follows \<^verbatim>\<open>src/app.js\<close>. The file holds two revisions of the class
  \<^verbatim>\<open>Imagify\<close>; the functions modelled here (\<^verbatim>\<open>findDeadZoneThreshold\<close>,
  \<^verbatim>\<open>calculateDisplaySize\<close>, \<^verbatim>\<open>calculateCompressionSize\<close>, \<^verbatim>\<open>compressImage\<close>,
  \<^verbatim>\<open>calculatePSNR\<close>, \<^verbatim>\<open>calculateSSIM\<close>, the pixel loop of \<^verbatim>\<open>updateHeatMap\<close> and
  \<^verbatim>\<open>getHeatMapColor\<close>) have the same statements in both, up to comments.

  A JavaScript number is an IEEE 754 double. The result of every division and
  multiplication, and of every sum with a fractional operand, is rounded to the nearest
  double by \<open>binary64\<close> below: in the resizer, the heat map, the colour ramp and (as a
  parameter of the model, so that exact arithmetic can be compared with it) in SSIM.
  Sums, differences and squares of pixel bytes are integers far below \<open>2^53\<close>, which
  binary64 arithmetic computes exactly (\<open>binary64_of_nat\<close>, \<open>binary64_of_int\<close> below), so
  they are written without rounding; the quotient and the logarithm of PSNR are taken
  over the reals. Where the source can produce a non-finite number the value is a
  \<open>jsnum\<close>, which has \<open>NaN\<close> and the two infinities; where only \<^verbatim>\<open>NaN\<close> can arise
  (from reading a pixel buffer past its end) it is a \<open>number\<close>.
\<close>

subsection \<open>JavaScript numbers that may be non-finite\<close>

datatype jsnum = Num real | PosInf | NegInf | NaN

text \<open>
  The arithmetic of these numbers. Zero is unsigned here: a zero divisor counts as
  \<^verbatim>\<open>+0\<close>, and a quotient by an infinity is 0.
\<close>

fun js_div :: "jsnum \<Rightarrow> jsnum \<Rightarrow> jsnum" where
  "js_div NaN _ = NaN"
| "js_div _ NaN = NaN"
| "js_div (Num a) (Num b) =
     (if b \<noteq> 0 then Num (a / b)
      else if a = 0 then NaN
      else if 0 < a then PosInf else NegInf)"
| "js_div (Num a) PosInf = Num 0"
| "js_div (Num a) NegInf = Num 0"
| "js_div PosInf (Num b) = (if 0 \<le> b then PosInf else NegInf)"
| "js_div NegInf (Num b) = (if 0 \<le> b then NegInf else PosInf)"
| "js_div _ _ = NaN"

fun js_neg :: "jsnum \<Rightarrow> jsnum" where
  "js_neg (Num a) = Num (- a)"
| "js_neg PosInf = NegInf"
| "js_neg NegInf = PosInf"
| "js_neg NaN = NaN"

fun js_add :: "jsnum \<Rightarrow> jsnum \<Rightarrow> jsnum" where
  "js_add NaN _ = NaN"
| "js_add _ NaN = NaN"
| "js_add (Num a) (Num b) = Num (a + b)"
| "js_add PosInf NegInf = NaN"
| "js_add NegInf PosInf = NaN"
| "js_add PosInf _ = PosInf"
| "js_add _ PosInf = PosInf"
| "js_add NegInf _ = NegInf"
| "js_add _ NegInf = NegInf"

definition js_sub :: "jsnum \<Rightarrow> jsnum \<Rightarrow> jsnum" where
  "js_sub a b = js_add a (js_neg b)"

text \<open>\<^verbatim>\<open>Math.min\<close> and \<^verbatim>\<open>Math.max\<close> of two arguments: \<open>NaN\<close> if either is \<open>NaN\<close>.\<close>

fun js_min :: "jsnum \<Rightarrow> jsnum \<Rightarrow> jsnum" where
  "js_min NaN _ = NaN"
| "js_min _ NaN = NaN"
| "js_min NegInf _ = NegInf"
| "js_min _ NegInf = NegInf"
| "js_min PosInf y = y"
| "js_min x PosInf = x"
| "js_min (Num a) (Num b) = Num (min a b)"

fun js_max :: "jsnum \<Rightarrow> jsnum \<Rightarrow> jsnum" where
  "js_max NaN _ = NaN"
| "js_max _ NaN = NaN"
| "js_max PosInf _ = PosInf"
| "js_max _ PosInf = PosInf"
| "js_max NegInf y = y"
| "js_max x NegInf = x"
| "js_max (Num a) (Num b) = Num (max a b)"

text \<open>Multiplication: zero times an infinity is \<open>NaN\<close>.\<close>

fun js_mul :: "jsnum \<Rightarrow> jsnum \<Rightarrow> jsnum" where
  "js_mul NaN _ = NaN"
| "js_mul _ NaN = NaN"
| "js_mul (Num a) (Num b) = Num (a * b)"
| "js_mul (Num a) PosInf = (if a = 0 then NaN else if 0 < a then PosInf else NegInf)"
| "js_mul (Num a) NegInf = (if a = 0 then NaN else if 0 < a then NegInf else PosInf)"
| "js_mul PosInf (Num b) = (if b = 0 then NaN else if 0 < b then PosInf else NegInf)"
| "js_mul NegInf (Num b) = (if b = 0 then NaN else if 0 < b then NegInf else PosInf)"
| "js_mul PosInf PosInf = PosInf"
| "js_mul PosInf NegInf = NegInf"
| "js_mul NegInf PosInf = NegInf"
| "js_mul NegInf NegInf = PosInf"

text \<open>\<^verbatim>\<open>Math.round\<close>: the nearest integer, a tie going up.\<close>

definition math_round :: "real \<Rightarrow> int" where
  "math_round x = \<lfloor>x + 1 / 2\<rfloor>"

fun js_round :: "jsnum \<Rightarrow> jsnum" where
  "js_round (Num r) = Num (of_int (math_round r))"
| "js_round x = x"

subsection \<open>Rounding to a double\<close>


definition round_half_even :: "real \<Rightarrow> int" where
  "round_half_even q =
     (let f = \<lfloor>q\<rfloor>; r = q - of_int f in
      if r < 1 / 2 then f else if 1 / 2 < r then f + 1 else if even f then f else f + 1)"

text \<open>\<open>ilog2 x\<close> is \<open>\<lfloor>log 2 x\<rfloor>\<close> for a positive \<open>x\<close>, computed from bit lengths.\<close>

definition ilog2 :: "real \<Rightarrow> int" where
  "ilog2 x = (if 1 \<le> x then int (floorlog 2 (nat \<lfloor>x\<rfloor>)) - 1
              else - int (floorlog 2 (nat (\<lceil>1 / x\<rceil> - 1))))"

text \<open>
  \<open>u\<close> is the spacing of the doubles around \<open>x\<close>: \<open>2^(e - 52)\<close> between \<open>2^e\<close> and
  \<open>2^(e + 1)\<close> (a significand of 53 bits), and \<open>2^-1074\<close> below \<open>2^-1022\<close> (the
  subnormal numbers).
\<close>

definition binary64 :: "real \<Rightarrow> real" where
  "binary64 x =
     (if x = 0 then 0
      else let u = 2 powi (max (ilog2 \<bar>x\<bar>) (- 1022) - 52)
           in sgn x * (u * of_int (round_half_even (\<bar>x\<bar> / u))))"

fun js_rnd :: "(real \<Rightarrow> real) \<Rightarrow> jsnum \<Rightarrow> jsnum" where
  "js_rnd rnd (Num a) = Num (rnd a)"
| "js_rnd rnd x = x"

definition fadd :: "(real \<Rightarrow> real) \<Rightarrow> jsnum \<Rightarrow> jsnum \<Rightarrow> jsnum" where
  "fadd rnd a b = js_rnd rnd (js_add a b)"

definition fsub :: "(real \<Rightarrow> real) \<Rightarrow> jsnum \<Rightarrow> jsnum \<Rightarrow> jsnum" where
  "fsub rnd a b = js_rnd rnd (js_sub a b)"

definition fmul :: "(real \<Rightarrow> real) \<Rightarrow> jsnum \<Rightarrow> jsnum \<Rightarrow> jsnum" where
  "fmul rnd a b = js_rnd rnd (js_mul a b)"

definition fdiv :: "(real \<Rightarrow> real) \<Rightarrow> jsnum \<Rightarrow> jsnum \<Rightarrow> jsnum" where
  "fdiv rnd a b = js_rnd rnd (js_div a b)"

definition fsq :: "(real \<Rightarrow> real) \<Rightarrow> jsnum \<Rightarrow> jsnum" where
  "fsq rnd a = fmul rnd a a"

text \<open>A decimal literal of the source is the double nearest to it.\<close>

definition lit :: "(real \<Rightarrow> real) \<Rightarrow> real \<Rightarrow> jsnum" where
  "lit rnd q = Num (rnd q)"

text \<open>\<open>js_number x\<close>: the real \<open>x\<close> is the value of a double.\<close>

definition js_number :: "real \<Rightarrow> bool" where
  "js_number x = (binary64 x = x)"

subsection \<open>The application state read by the core\<close>

record image =
  naturalWidth :: nat
  naturalHeight :: nat

record jsfile =
  file_type :: string
  file_size :: nat

text \<open>
  \<open>maxWidthValue\<close> and \<open>maxHeightValue\<close> are what \<^verbatim>\<open>parseInt\<close> returns on the two
  input fields: an integer, or \<open>None\<close> for \<^verbatim>\<open>NaN\<close> (an empty or non-numeric field).
\<close>

record imagify =
  originalImage :: "image option"
  originalFile :: "jsfile option"
  originalSize :: nat
  currentQuality :: nat
  maxWidthValue :: "int option"
  maxHeightValue :: "int option"

subsection \<open>Resizer\<close>

text \<open>\<^verbatim>\<open>parseInt(...) || fallback\<close>: \<^verbatim>\<open>NaN\<close> and \<^verbatim>\<open>0\<close> are falsy.\<close>

definition or_default :: "int option \<Rightarrow> nat \<Rightarrow> real" where
  "or_default v d = (case v of None \<Rightarrow> real d | Some n \<Rightarrow> if n = 0 then real d else of_int n)"

record size2 =
  width :: jsnum
  height :: jsnum

definition calculateDisplaySize :: "nat \<Rightarrow> nat \<Rightarrow> real \<Rightarrow> real \<Rightarrow> size2" where
  "calculateDisplaySize originalWidth originalHeight maxWidth maxHeight =
     (if originalWidth = 0 \<or> originalHeight = 0 then \<lparr>width = Num 0, height = Num 0\<rparr>
      else
        let ratio = js_min (fdiv binary64 (Num maxWidth) (Num (real originalWidth)))
                      (js_min (fdiv binary64 (Num maxHeight) (Num (real originalHeight))) (Num 1))
        in \<lparr>width = js_max (Num 1) (js_round (fmul binary64 (Num (real originalWidth)) ratio)),
            height = js_max (Num 1) (js_round (fmul binary64 (Num (real originalHeight)) ratio))\<rparr>)"

definition calculateCompressionSize :: "imagify \<Rightarrow> size2" where
  "calculateCompressionSize s =
     (case originalImage s of
        None \<Rightarrow> \<lparr>width = Num 0, height = Num 0\<rparr>
      | Some img \<Rightarrow>
          let maxWidth = or_default (maxWidthValue s) (naturalWidth img);
              maxHeight = or_default (maxHeightValue s) (naturalHeight img);
              ratio = js_min (fdiv binary64 (Num maxWidth) (Num (real (naturalWidth img))))
                        (js_min (fdiv binary64 (Num maxHeight) (Num (real (naturalHeight img)))) (Num 1))
          in \<lparr>width = js_max (Num 1) (js_round (fmul binary64 (Num (real (naturalWidth img))) ratio)),
              height = js_max (Num 1) (js_round (fmul binary64 (Num (real (naturalHeight img))) ratio))\<rparr>)"

subsection \<open>Canvas commands and the encoder\<close>

text \<open>
  The canvas and the JPEG encoder belong to the browser. A function's use of them is
  recorded as the list of commands it issues, in order; the encoder's answer to
  \<^verbatim>\<open>toBlob\<close> at a quality is a parameter of the model.
\<close>

datatype canvas_cmd =
    CreateCanvas jsnum jsnum
  | FillRect string jsnum jsnum jsnum jsnum
  | DrawImage jsnum jsnum jsnum jsnum
  | ToBlob string nat

text \<open>
  What one \<^verbatim>\<open>toBlob\<close> probe gives: a blob of some byte size, \<^verbatim>\<open>null\<close>, or an
  exception caught by the \<^verbatim>\<open>try\<close> around the probe. \<open>ToBlob t q\<close> stands for
  \<^verbatim>\<open>toBlob(cb, t, q / 100)\<close>.
\<close>

datatype blob_result = Blob nat | NullBlob | Raise

subsection \<open>Dead-zone search\<close>

definition testQualities :: "nat list" where
  "testQualities = [99, 98, 97, 96, 95, 94, 93, 92, 91, 90, 88, 85, 80, 75, 70]"

text \<open>
  The \<^verbatim>\<open>for (const quality of testQualities)\<close> loop. The state is
  \<open>thresholdQuality\<close> and the commands issued so far; \<^verbatim>\<open>break\<close> returns at once.
\<close>

fun dz_scan :: "(nat \<Rightarrow> blob_result) \<Rightarrow> nat \<Rightarrow> nat list \<Rightarrow> nat \<Rightarrow> canvas_cmd list
                \<Rightarrow> nat \<times> canvas_cmd list" where
  "dz_scan toBlob origSize [] thresholdQuality cmds = (thresholdQuality, cmds)"
| "dz_scan toBlob origSize (quality # rest) thresholdQuality cmds =
     (case toBlob quality of
        Blob sz \<Rightarrow>
          if sz > origSize
          then dz_scan toBlob origSize rest quality (cmds @ [ToBlob ''image/jpeg'' quality])
          else (quality + 1, cmds @ [ToBlob ''image/jpeg'' quality])
      | NullBlob \<Rightarrow> (quality + 1, cmds @ [ToBlob ''image/jpeg'' quality])
      | Raise \<Rightarrow> (quality + 1, cmds @ [ToBlob ''image/jpeg'' quality]))"

text \<open>The white fill done when the original file is a PNG.\<close>

definition white_fill :: "jsfile option \<Rightarrow> jsnum \<Rightarrow> jsnum \<Rightarrow> canvas_cmd list" where
  "white_fill f w h =
     (case f of
        None \<Rightarrow> []
      | Some fl \<Rightarrow>
          if file_type fl = ''image/png'' then [FillRect ''#FFFFFF'' (Num 0) (Num 0) w h] else [])"

definition findDeadZoneThreshold :: "(nat \<Rightarrow> blob_result) \<Rightarrow> imagify \<Rightarrow> nat \<times> canvas_cmd list" where
  "findDeadZoneThreshold toBlob s =
     (if originalImage s = None \<or> originalFile s = None \<or> originalSize s = 0 then (101, [])
      else
        let sz = calculateCompressionSize s in
        if width sz = Num 0 \<or> height sz = Num 0 then (101, [])
        else
          let prep = [CreateCanvas (width sz) (height sz)]
                       @ white_fill (originalFile s) (width sz) (height sz)
                       @ [DrawImage (Num 0) (Num 0) (width sz) (height sz)];
              (thresholdQuality, cmds) = dz_scan toBlob (originalSize s) testQualities 101 prep
          in (max 1 (min thresholdQuality 101), cmds))"

text \<open>A probe exceeds the reference when it gives a blob larger than \<open>originalSize\<close>.\<close>

definition exceeds :: "(nat \<Rightarrow> blob_result) \<Rightarrow> nat \<Rightarrow> nat \<Rightarrow> bool" where
  "exceeds toBlob origSize quality =
     (case toBlob quality of Blob sz \<Rightarrow> sz > origSize | NullBlob \<Rightarrow> False | Raise \<Rightarrow> False)"


text \<open>The search runs its loop: image, file and a non-zero reference size are present.\<close>

definition searchable :: "imagify \<Rightarrow> bool" where
  "searchable s = (originalImage s \<noteq> None \<and> originalFile s \<noteq> None \<and> originalSize s \<noteq> 0)"

text \<open>Concrete inputs: scenario C of the specification, and encoders of constant size.\<close>

definition scenarioC_state :: imagify where
  "scenarioC_state =
     \<lparr>originalImage = Some \<lparr>naturalWidth = 800, naturalHeight = 600\<rparr>,
      originalFile = Some \<lparr>file_type = ''image/jpeg'', file_size = 50000\<rparr>,
      originalSize = 50000, currentQuality = 100,
      maxWidthValue = None, maxHeightValue = None\<rparr>"


definition all_exceed_toBlob :: "nat \<Rightarrow> blob_result" where
  "all_exceed_toBlob quality = Blob 60000"

definition all_under_toBlob :: "nat \<Rightarrow> blob_result" where
  "all_under_toBlob quality = Blob 40000"

subsection \<open>Compression path\<close>

text \<open>
  What \<^verbatim>\<open>compressImage\<close> does, up to the point where it hands over: nothing (no
  image), an error shown (the \<^verbatim>\<open>throw\<close> on zero dimensions, caught in the function),
  the original file passed to \<^verbatim>\<open>processFinalBlob\<close> without any encode, or
  \<^verbatim>\<open>toBlob\<close> asked for a JPEG at \<open>currentQuality\<close>.
\<close>

datatype compress_step = Skipped | ErrorShown | UsedOriginal | EncodeRequested

definition compressImage :: "imagify \<Rightarrow> compress_step \<times> canvas_cmd list" where
  "compressImage s =
     (case originalImage s of
        None \<Rightarrow> (Skipped, [])
      | Some img \<Rightarrow>
          let sz = calculateCompressionSize s in
          if width sz = Num 0 \<or> height sz = Num 0 then (ErrorShown, [])
          else
            let isResized = (width sz \<noteq> Num (real (naturalWidth img))
                             \<or> height sz \<noteq> Num (real (naturalHeight img)))
            in if currentQuality s = 100 \<and> \<not> isResized then (UsedOriginal, [])
               else (EncodeRequested,
                     [CreateCanvas (width sz) (height sz)]
                       @ white_fill (originalFile s) (width sz) (height sz)
                       @ [DrawImage (Num 0) (Num 0) (width sz) (height sz),
                          ToBlob ''image/jpeg'' (currentQuality s)]))"

text \<open>The second revision of the class returns at once while another operation runs
  (\<^verbatim>\<open>if (this.isProcessing || !this.originalImage) return;\<close>) and is otherwise the same.\<close>

definition compressImage_rev2 :: "bool \<Rightarrow> imagify \<Rightarrow> compress_step \<times> canvas_cmd list" where
  "compressImage_rev2 isProcessing s = (if isProcessing then (Skipped, []) else compressImage s)"

text \<open>
  Modelled from the spec: ``the origin format supports alpha''. The source has no such
  notion (it compares the file type with \<^verbatim>\<open>'image/png'\<close> only); this is the set of
  admitted types (\<^verbatim>\<open>handleFileSelect\<close> admits every type starting with \<^verbatim>\<open>image/\<close>, and
  its message names JPG, PNG and WebP) whose format has an alpha channel or transparency.
\<close>

definition supports_alpha :: "string \<Rightarrow> bool" where
  "supports_alpha t = (t = ''image/png'' \<or> t = ''image/webp'' \<or> t = ''image/gif'')"

text \<open>The commands that prepare a canvas of the target size flattened onto white.\<close>

definition prepared_on_white :: "jsnum \<Rightarrow> jsnum \<Rightarrow> canvas_cmd list" where
  "prepared_on_white w h =
     [CreateCanvas w h, FillRect ''#FFFFFF'' (Num 0) (Num 0) w h, DrawImage (Num 0) (Num 0) w h]"

text \<open>The same without the fill: the image is drawn on the transparent canvas.\<close>

definition prepared_bare :: "jsnum \<Rightarrow> jsnum \<Rightarrow> canvas_cmd list" where
  "prepared_bare w h = [CreateCanvas w h, DrawImage (Num 0) (Num 0) w h]"

text \<open>Scenarios A and B of the specification, and a PNG and a WebP original.\<close>

definition scenarioB_state :: imagify where
  "scenarioB_state =
     \<lparr>originalImage = Some \<lparr>naturalWidth = 800, naturalHeight = 600\<rparr>,
      originalFile = Some \<lparr>file_type = ''image/jpeg'', file_size = 50000\<rparr>,
      originalSize = 50000, currentQuality = 80,
      maxWidthValue = Some 400, maxHeightValue = None\<rparr>"

definition png_state :: imagify where
  "png_state =
     \<lparr>originalImage = Some \<lparr>naturalWidth = 800, naturalHeight = 600\<rparr>,
      originalFile = Some \<lparr>file_type = ''image/png'', file_size = 50000\<rparr>,
      originalSize = 50000, currentQuality = 80,
      maxWidthValue = None, maxHeightValue = None\<rparr>"

definition webp_state :: imagify where
  "webp_state =
     \<lparr>originalImage = Some \<lparr>naturalWidth = 800, naturalHeight = 600\<rparr>,
      originalFile = Some \<lparr>file_type = ''image/webp'', file_size = 50000\<rparr>,
      originalSize = 50000, currentQuality = 80,
      maxWidthValue = None, maxHeightValue = None\<rparr>"

subsection \<open>Pixel buffers\<close>

text \<open>
  An \<^verbatim>\<open>ImageData\<close>: its dimensions and its \<^verbatim>\<open>Uint8ClampedArray\<close> of RGBA bytes, row
  by row. (The field names \<open>width\<close> and \<open>height\<close> are taken by the size record above.)
\<close>

type_synonym u8 = "8 word"

record imageData =
  iwidth :: nat
  iheight :: nat
  data :: "u8 list"

text \<open>
  A number that may be \<^verbatim>\<open>NaN\<close> (\<open>None\<close>). Reading a typed array past its end gives
  \<^verbatim>\<open>undefined\<close>, which arithmetic turns into \<^verbatim>\<open>NaN\<close> and every comparison into false.
\<close>

type_synonym number = "real option"

definition rd :: "u8 list \<Rightarrow> nat \<Rightarrow> number" where
  "rd d i = (if i < length d then Some (real (unat (d ! i))) else None)"

definition num_add :: "number \<Rightarrow> number \<Rightarrow> number" where
  "num_add a b = (case (a, b) of (Some x, Some y) \<Rightarrow> Some (x + y) | _ \<Rightarrow> None)"

definition num_sub :: "number \<Rightarrow> number \<Rightarrow> number" where
  "num_sub a b = (case (a, b) of (Some x, Some y) \<Rightarrow> Some (x - y) | _ \<Rightarrow> None)"

definition num_sq :: "number \<Rightarrow> number" where
  "num_sq a = (case a of Some x \<Rightarrow> Some (x ^ 2) | None \<Rightarrow> None)"

definition num_abs :: "number \<Rightarrow> number" where
  "num_abs a = (case a of Some x \<Rightarrow> Some \<bar>x\<bar> | None \<Rightarrow> None)"

definition num_lt :: "number \<Rightarrow> real \<Rightarrow> bool" where
  "num_lt a c = (case a of Some x \<Rightarrow> x < c | None \<Rightarrow> False)"

definition num_eq :: "number \<Rightarrow> real \<Rightarrow> bool" where
  "num_eq a c = (case a of Some x \<Rightarrow> x = c | None \<Rightarrow> False)"

text \<open>What \<^verbatim>\<open>getImageData\<close> returns: four bytes for each pixel.\<close>

definition well_formed :: "imageData \<Rightarrow> bool" where
  "well_formed a = (length (data a) = 4 * (iwidth a * iheight a))"

definition same_size :: "imageData \<Rightarrow> imageData \<Rightarrow> bool" where
  "same_size a b = (well_formed a \<and> well_formed b \<and> iwidth a = iwidth b \<and> iheight a = iheight b)"

subsection \<open>PSNR\<close>

text \<open>The loop \<^verbatim>\<open>for (let i = 0; i < d1.length; i += 4)\<close> with its state \<open>mse\<close>,
  \<open>pixelCount\<close>.\<close>

function psnr_loop :: "u8 list \<Rightarrow> u8 list \<Rightarrow> nat \<Rightarrow> number \<Rightarrow> nat \<Rightarrow> number \<times> nat" where
  "psnr_loop d1 d2 i mse pixelCount =
     (if i < length d1 then
        if num_lt (rd d1 (i + 3)) 255 then psnr_loop d1 d2 (i + 4) mse pixelCount
        else psnr_loop d1 d2 (i + 4)
               (num_add mse
                  (num_add
                     (num_add (num_sq (num_sub (rd d1 i) (rd d2 i)))
                              (num_sq (num_sub (rd d1 (i + 1)) (rd d2 (i + 1)))))
                     (num_sq (num_sub (rd d1 (i + 2)) (rd d2 (i + 2))))))
               (pixelCount + 1)
      else (mse, pixelCount))"
  by pat_completeness auto
termination
  by (relation "measure (\<lambda>(d1, d2, i, mse, pixelCount). length d1 - i)") auto

definition calculatePSNR :: "imageData \<Rightarrow> imageData \<Rightarrow> number" where
  "calculatePSNR originalData compressedData =
     (let (mse, pixelCount) = psnr_loop (data originalData) (data compressedData) 0 (Some 0) 0 in
      if pixelCount = 0 then Some 100
      else case mse of
             None \<Rightarrow> None
           | Some m \<Rightarrow>
               let mse' = m / real (pixelCount * 3) in
               if mse' < 1 / 10 ^ 10 then Some 100
               else Some (max 0 (10 * log 10 (255 ^ 2 / mse'))))"

text \<open>
  The specification's wording of PSNR, for comparison with the code. \<open>chan d k c\<close> is
  channel \<open>c\<close> of pixel \<open>k\<close>; the included pixels are those whose reference alpha is 255.
\<close>

definition chan :: "u8 list \<Rightarrow> nat \<Rightarrow> nat \<Rightarrow> real" where
  "chan d k c = real (unat (d ! (4 * k + c)))"

definition sq_err :: "u8 list \<Rightarrow> u8 list \<Rightarrow> nat \<Rightarrow> real" where
  "sq_err d1 d2 k =
     (chan d1 k 0 - chan d2 k 0) ^ 2 + (chan d1 k 1 - chan d2 k 1) ^ 2 + (chan d1 k 2 - chan d2 k 2) ^ 2"

definition included :: "u8 list \<Rightarrow> nat list \<Rightarrow> nat list" where
  "included d1 ks = filter (\<lambda>k. chan d1 k 3 = 255) ks"

definition psnr_spec :: "imageData \<Rightarrow> imageData \<Rightarrow> real" where
  "psnr_spec a b =
     (let inc = included (data a) [0..<iwidth a * iheight a];
          sse = sum_list (map (sq_err (data a) (data b)) inc)
      in if inc = [] then 100
         else let mse = sse / (3 * real (length inc)) in
              if mse < 1 / 10 ^ 10 then 100
              else max 0 (10 * log 10 (255 ^ 2 / mse)))"

text \<open>Concrete bitmaps: a white 300 by 200 image, the same with the first red byte at 254,
  and two single pixels.\<close>

definition white_300x200 :: imageData where
  "white_300x200 = \<lparr>iwidth = 300, iheight = 200, data = replicate 240000 255\<rparr>"

definition off_by_one_300x200 :: imageData where
  "off_by_one_300x200 = \<lparr>iwidth = 300, iheight = 200, data = 254 # replicate 239999 255\<rparr>"

definition pixel_a :: imageData where
  "pixel_a = \<lparr>iwidth = 1, iheight = 1, data = [10, 20, 30, 255]\<rparr>"

definition pixel_b :: imageData where
  "pixel_b = \<lparr>iwidth = 1, iheight = 1, data = [12, 20, 30, 255]\<rparr>"

subsection \<open>Heat map\<close>

datatype error = TypeError | RangeError

record rgb =
  rgb_r :: int
  rgb_g :: int
  rgb_b :: int

definition colors :: "rgb list" where
  "colors =
     [\<lparr>rgb_r = 0, rgb_g = 0, rgb_b = 255\<rparr>,
      \<lparr>rgb_r = 0, rgb_g = 255, rgb_b = 255\<rparr>,
      \<lparr>rgb_r = 0, rgb_g = 255, rgb_b = 0\<rparr>,
      \<lparr>rgb_r = 255, rgb_g = 255, rgb_b = 0\<rparr>,
      \<lparr>rgb_r = 255, rgb_g = 0, rgb_b = 0\<rparr>]"

text \<open>\<^verbatim>\<open>colors[i]\<close>: \<^verbatim>\<open>undefined\<close> (\<open>None\<close>) outside the table.\<close>

definition color_at :: "int \<Rightarrow> rgb option" where
  "color_at i = (if 0 \<le> i \<and> nat i < length colors then Some (colors ! nat i) else None)"

text \<open>
  \<^verbatim>\<open>getHeatMapColor\<close>. Reading \<^verbatim>\<open>.r\<close> of an \<^verbatim>\<open>undefined\<close> table entry throws a
  \<^verbatim>\<open>TypeError\<close>; with a \<^verbatim>\<open>NaN\<close> intensity the index is \<^verbatim>\<open>NaN\<close> and the entry is
  \<^verbatim>\<open>undefined\<close>. The product \<open>p\<close>, the differences \<open>p - i\<close> and \<open>1 - t\<close>, the two
  products of each component and their sum are each rounded to a double.
\<close>

definition getHeatMapColor :: "number \<Rightarrow> error + rgb" where
  "getHeatMapColor intensity0 =
     (case intensity0 of
        None \<Rightarrow> Inl TypeError
      | Some x \<Rightarrow>
          let intensity = max 0 (min 1 x);
              p = binary64 (intensity * real (length colors - 1));
              i = \<lfloor>p\<rfloor>;
              j = min (i + 1) (int (length colors) - 1);
              t = binary64 (p - of_int i)
          in case (color_at i, color_at j) of
               (Some ci, Some cj) \<Rightarrow>
                 Inr \<lparr>rgb_r = math_round (binary64 (binary64 (of_int (rgb_r ci) * binary64 (1 - t))
                                                   + binary64 (of_int (rgb_r cj) * t))),
                      rgb_g = math_round (binary64 (binary64 (of_int (rgb_g ci) * binary64 (1 - t))
                                                   + binary64 (of_int (rgb_g cj) * t))),
                      rgb_b = math_round (binary64 (binary64 (of_int (rgb_b ci) * binary64 (1 - t))
                                                   + binary64 (of_int (rgb_b cj) * t)))\<rparr>
             | _ \<Rightarrow> Inl TypeError)"

text \<open>
  Storing a number in a \<^verbatim>\<open>Uint8ClampedArray\<close>: \<^verbatim>\<open>NaN\<close> becomes 0, the value is clamped
  to [0,255] and rounded to the nearest integer, a tie going to the even one.
\<close>

definition toUint8Clamp :: "number \<Rightarrow> u8" where
  "toUint8Clamp v =
     (case v of
        None \<Rightarrow> 0
      | Some x \<Rightarrow>
          if x \<le> 0 then 0
          else if 255 \<le> x then 255
          else let f = \<lfloor>x\<rfloor> in
               if x - of_int f < 1 / 2 then word_of_int f
               else if 1 / 2 < x - of_int f then word_of_int (f + 1)
               else if even f then word_of_int f else word_of_int (f + 1))"

text \<open>\<^verbatim>\<open>heatMapData.set([v0, v1, v2, v3], i)\<close>: a \<^verbatim>\<open>RangeError\<close> when the four values do
  not fit at offset \<open>i\<close>.\<close>

definition set4 :: "u8 list \<Rightarrow> number list \<Rightarrow> nat \<Rightarrow> error + u8 list" where
  "set4 heatMapData vs i =
     (if i + length vs > length heatMapData then Inl RangeError
      else Inr (take i heatMapData @ map toUint8Clamp vs @ drop (i + length vs) heatMapData))"

text \<open>\<^verbatim>\<open>Math.min(1, v)\<close> and \<^verbatim>\<open>Math.max(30, v)\<close> on a number that may be \<^verbatim>\<open>NaN\<close>.\<close>

definition num_min :: "real \<Rightarrow> number \<Rightarrow> number" where
  "num_min c v = (case v of Some x \<Rightarrow> Some (min c x) | None \<Rightarrow> None)"

definition num_max :: "real \<Rightarrow> number \<Rightarrow> number" where
  "num_max c v = (case v of Some x \<Rightarrow> Some (max c x) | None \<Rightarrow> None)"

text \<open>The quotient and the product of doubles, rounded to a double.\<close>

definition num_div :: "number \<Rightarrow> real \<Rightarrow> number" where
  "num_div v c = (case v of Some x \<Rightarrow> Some (binary64 (x / c)) | None \<Rightarrow> None)"

definition num_mul :: "number \<Rightarrow> number \<Rightarrow> number" where
  "num_mul a b = (case (a, b) of (Some x, Some y) \<Rightarrow> Some (binary64 (x * y)) | _ \<Rightarrow> None)"

text \<open>The \<open>intensity\<close> of the pixel at byte offset \<open>i\<close>.\<close>

definition pixel_intensity :: "u8 list \<Rightarrow> u8 list \<Rightarrow> nat \<Rightarrow> number" where
  "pixel_intensity originalData compressedPixelData i =
     (let diff = num_div
                   (num_add
                      (num_add (num_abs (num_sub (rd originalData i) (rd compressedPixelData i)))
                               (num_abs (num_sub (rd originalData (i + 1)) (rd compressedPixelData (i + 1)))))
                      (num_abs (num_sub (rd originalData (i + 2)) (rd compressedPixelData (i + 2)))))
                   3
      in num_min 1 (num_div diff 255))"

text \<open>
  The pixel loop of \<^verbatim>\<open>updateHeatMap\<close>. An exception leaves the loop (it is caught by the
  \<^verbatim>\<open>try\<close> around it and nothing is drawn); otherwise the filled buffer is what
  \<^verbatim>\<open>putImageData\<close> receives.
\<close>

function heat_loop :: "u8 list \<Rightarrow> u8 list \<Rightarrow> nat \<Rightarrow> u8 list \<Rightarrow> error + u8 list" where
  "heat_loop originalData compressedPixelData i heatMapData =
     (if i < length originalData then
        if num_lt (rd originalData (i + 3)) 255 then
          (case set4 heatMapData [Some 0, Some 0, Some 0, Some 0] i of
             Inl e \<Rightarrow> Inl e
           | Inr hm \<Rightarrow> heat_loop originalData compressedPixelData (i + 4) hm)
        else
          let intensity = pixel_intensity originalData compressedPixelData i in
          case getHeatMapColor intensity of
            Inl e \<Rightarrow> Inl e
          | Inr c \<Rightarrow>
              let alpha = num_max 30 (num_mul intensity (Some 225)) in
              (case set4 heatMapData
                      [Some (of_int (rgb_r c)), Some (of_int (rgb_g c)), Some (of_int (rgb_b c)), alpha] i of
                 Inl e \<Rightarrow> Inl e
               | Inr hm \<Rightarrow> heat_loop originalData compressedPixelData (i + 4) hm)
      else Inr heatMapData)"
  by pat_completeness auto
termination
  by (relation "measure (\<lambda>(originalData, compressedPixelData, i, heatMapData). length originalData - i)")
    auto

text \<open>\<^verbatim>\<open>createImageData(displayWidth, displayHeight)\<close> is all zero; both pixel buffers are
  read at the same dimensions.\<close>

definition heatMapPixels :: "imageData \<Rightarrow> imageData \<Rightarrow> error + u8 list" where
  "heatMapPixels original compressed =
     heat_loop (data original) (data compressed) 0
       (replicate (4 * (iwidth original * iheight original)) 0)"

text \<open>
  The specification's wording of the heat map, for comparison with the loop: the
  intensity of pixel \<open>k\<close> is the mean absolute R, G, B difference divided by 255 (each
  of the two quotients a double), and \<open>heat_pixel\<close> is the four bytes the pixel
  receives, its alpha being the double \<open>max 30 (intensity * 225)\<close> as the byte buffer
  stores it.
\<close>

definition intensity_spec :: "u8 list \<Rightarrow> u8 list \<Rightarrow> nat \<Rightarrow> real" where
  "intensity_spec d1 d2 k =
     binary64
       (binary64 ((\<bar>chan d1 k 0 - chan d2 k 0\<bar> + \<bar>chan d1 k 1 - chan d2 k 1\<bar>
                   + \<bar>chan d1 k 2 - chan d2 k 2\<bar>) / 3) / 255)"

definition heat_pixel :: "u8 list \<Rightarrow> u8 list \<Rightarrow> nat \<Rightarrow> u8 list" where
  "heat_pixel d1 d2 k =
     (if chan d1 k 3 = 255 then
        (case getHeatMapColor (Some (intensity_spec d1 d2 k)) of
           Inr c \<Rightarrow> [word_of_int (rgb_r c), word_of_int (rgb_g c), word_of_int (rgb_b c),
                     toUint8Clamp (Some (max 30 (binary64 (intensity_spec d1 d2 k * 225))))]
         | Inl e \<Rightarrow> [0, 0, 0, 0])
      else [0, 0, 0, 0])"

text \<open>Concrete bitmaps for the heat map: two pixels, the second half transparent in the
  reference, and a single half-transparent pixel.\<close>

definition two_pixels_a :: imageData where
  "two_pixels_a = \<lparr>iwidth = 2, iheight = 1, data = [10, 20, 30, 255, 50, 60, 70, 128]\<rparr>"

definition two_pixels_b :: imageData where
  "two_pixels_b = \<lparr>iwidth = 2, iheight = 1, data = [115, 20, 30, 255, 50, 60, 70, 255]\<rparr>"

definition semi_pixel :: imageData where
  "semi_pixel = \<lparr>iwidth = 1, iheight = 1, data = [10, 20, 30, 128]\<rparr>"

subsection \<open>SSIM\<close>

text \<open>
  Whether \<^verbatim>\<open>calculateSSIM\<close> gives exactly 1 on two identical bitmaps is decided by the
  rounding of its arithmetic (the source itself clamps the variances against ``floating
  point inaccuracies''). So the rounding applied to the result of every arithmetic
  operation is a parameter \<open>rnd\<close> of this model: with \<open>binary64\<close> it is what the code
  computes, with \<open>exact\<close> it is the arithmetic of the reals. (\<^verbatim>\<open>x ** 2\<close> is taken as
  the rounded product \<^verbatim>\<open>x * x\<close>.)
\<close>

text \<open>A typed-array read as a number: \<^verbatim>\<open>undefined\<close> becomes \<^verbatim>\<open>NaN\<close> in arithmetic.\<close>

definition rdj :: "u8 list \<Rightarrow> nat \<Rightarrow> jsnum" where
  "rdj d i = (case rd d i of Some x \<Rightarrow> Num x | None \<Rightarrow> NaN)"

definition WINDOW_SIZE :: nat where
  "WINDOW_SIZE = 8"

definition C1 :: "(real \<Rightarrow> real) \<Rightarrow> jsnum" where
  "C1 rnd = fsq rnd (fmul rnd (lit rnd (1 / 100)) (Num 255))"

definition C2 :: "(real \<Rightarrow> real) \<Rightarrow> jsnum" where
  "C2 rnd = fsq rnd (fmul rnd (lit rnd (3 / 100)) (Num 255))"

record win_stats =
  sumX :: jsnum
  sumY :: jsnum
  sumX2 :: jsnum
  sumY2 :: jsnum
  sumXY :: jsnum
  numPixels :: nat
  windowHasOpaquePixel :: bool

definition win_init :: win_stats where
  "win_init = \<lparr>sumX = Num 0, sumY = Num 0, sumX2 = Num 0, sumY2 = Num 0, sumXY = Num 0,
                numPixels = 0, windowHasOpaquePixel = False\<rparr>"

text \<open>\<^verbatim>\<open>0.299 * d[index] + 0.587 * d[index + 1] + 0.114 * d[index + 2]\<close>\<close>

definition luminance :: "(real \<Rightarrow> real) \<Rightarrow> u8 list \<Rightarrow> nat \<Rightarrow> jsnum" where
  "luminance rnd d index =
     fadd rnd
       (fadd rnd (fmul rnd (lit rnd (299 / 1000)) (rdj d index))
                 (fmul rnd (lit rnd (587 / 1000)) (rdj d (index + 1))))
       (fmul rnd (lit rnd (114 / 1000)) (rdj d (index + 2)))"

text \<open>The body of the two inner loops, at byte offset \<open>index\<close>.\<close>

definition pixel_step :: "(real \<Rightarrow> real) \<Rightarrow> u8 list \<Rightarrow> u8 list \<Rightarrow> nat \<Rightarrow> win_stats \<Rightarrow> win_stats" where
  "pixel_step rnd d1 d2 index w =
     (if num_eq (rd d1 (index + 3)) 0 then w
      else
        let lumX = luminance rnd d1 index;
            lumY = luminance rnd d2 index
        in w\<lparr>windowHasOpaquePixel := True,
              sumX := fadd rnd (sumX w) lumX,
              sumY := fadd rnd (sumY w) lumY,
              sumX2 := fadd rnd (sumX2 w) (fsq rnd lumX),
              sumY2 := fadd rnd (sumY2 w) (fsq rnd lumY),
              sumXY := fadd rnd (sumXY w) (fmul rnd lumX lumY),
              numPixels := numPixels w + 1\<rparr>)"

text \<open>The loops over \<open>j\<close> and \<open>i\<close>, both from 0 below \<open>WINDOW_SIZE\<close>.\<close>

definition window_stats :: "(real \<Rightarrow> real) \<Rightarrow> u8 list \<Rightarrow> u8 list \<Rightarrow> nat \<Rightarrow> nat \<Rightarrow> nat \<Rightarrow> win_stats" where
  "window_stats rnd d1 d2 wd x y =
     fold (\<lambda>j. fold (\<lambda>i. pixel_step rnd d1 d2 (((y + j) * wd + (x + i)) * 4)) [0..<WINDOW_SIZE])
       [0..<WINDOW_SIZE] win_init"

text \<open>The statistics of a window that contributes, and its SSIM value.\<close>

definition window_ssim :: "(real \<Rightarrow> real) \<Rightarrow> win_stats \<Rightarrow> jsnum" where
  "window_ssim rnd w =
     (let n = Num (real (numPixels w));
          meanX = fdiv rnd (sumX w) n;
          meanY = fdiv rnd (sumY w) n;
          varX = fsub rnd (fdiv rnd (sumX2 w) n) (fsq rnd meanX);
          varY = fsub rnd (fdiv rnd (sumY2 w) n) (fsq rnd meanY);
          covXY = fsub rnd (fdiv rnd (sumXY w) n) (fmul rnd meanX meanY);
          varX = js_max (Num 0) varX;
          varY = js_max (Num 0) varY
      in fdiv rnd
           (fmul rnd (fadd rnd (fmul rnd (fmul rnd (Num 2) meanX) meanY) (C1 rnd))
                     (fadd rnd (fmul rnd (Num 2) covXY) (C2 rnd)))
           (fmul rnd (fadd rnd (fadd rnd (fsq rnd meanX) (fsq rnd meanY)) (C1 rnd))
                     (fadd rnd (fadd rnd varX varY) (C2 rnd))))"

text \<open>
  The loop over \<open>x\<close> (\<^verbatim>\<open>x <= width - WINDOW_SIZE\<close>, \<^verbatim>\<open>x += WINDOW_SIZE\<close>) with the state
  \<open>totalSsim\<close>, \<open>windowCount\<close>, and the loop over \<open>y\<close> around it.
\<close>

function ssim_cols :: "(real \<Rightarrow> real) \<Rightarrow> u8 list \<Rightarrow> u8 list \<Rightarrow> nat \<Rightarrow> nat \<Rightarrow> nat \<Rightarrow> jsnum \<times> nat
                       \<Rightarrow> jsnum \<times> nat" where
  "ssim_cols rnd d1 d2 wd y x (totalSsim, windowCount) =
     (if int x \<le> int wd - int WINDOW_SIZE then
        let w = window_stats rnd d1 d2 wd x y in
        if \<not> windowHasOpaquePixel w \<or> numPixels w = 0
        then ssim_cols rnd d1 d2 wd y (x + WINDOW_SIZE) (totalSsim, windowCount)
        else ssim_cols rnd d1 d2 wd y (x + WINDOW_SIZE)
               (fadd rnd totalSsim (window_ssim rnd w), windowCount + 1)
      else (totalSsim, windowCount))"
  by pat_completeness auto
termination
  by (relation "measure (\<lambda>(rnd, d1, d2, wd, y, x, acc). wd - x)") (auto simp: WINDOW_SIZE_def)

function ssim_rows :: "(real \<Rightarrow> real) \<Rightarrow> u8 list \<Rightarrow> u8 list \<Rightarrow> nat \<Rightarrow> nat \<Rightarrow> nat \<Rightarrow> jsnum \<times> nat
                       \<Rightarrow> jsnum \<times> nat" where
  "ssim_rows rnd d1 d2 wd ht y acc =
     (if int y \<le> int ht - int WINDOW_SIZE
      then ssim_rows rnd d1 d2 wd ht (y + WINDOW_SIZE) (ssim_cols rnd d1 d2 wd y 0 acc)
      else acc)"
  by pat_completeness auto
termination
  by (relation "measure (\<lambda>(rnd, d1, d2, wd, ht, y, acc). ht - y)") (auto simp: WINDOW_SIZE_def)

declare ssim_cols.simps [simp del] ssim_rows.simps [simp del]

definition calculateSSIM :: "(real \<Rightarrow> real) \<Rightarrow> imageData \<Rightarrow> imageData \<Rightarrow> jsnum" where
  "calculateSSIM rnd img1 img2 =
     (if iwidth img1 < WINDOW_SIZE \<or> iheight img1 < WINDOW_SIZE then Num 1
      else
        let (totalSsim, windowCount) =
              ssim_rows rnd (data img1) (data img2) (iwidth img1) (iheight img1) 0 (Num 0, 0)
        in if windowCount > 0
           then js_max (Num 0) (js_min (Num 1) (fdiv rnd totalSsim (Num (real windowCount))))
           else Num 1)"

text \<open>Bitmaps of one colour, and what the window loops compute on them: every pixel adds
  the same luminance.\<close>

definition solid :: "nat \<Rightarrow> nat \<Rightarrow> u8 \<Rightarrow> u8 \<Rightarrow> u8 \<Rightarrow> u8 \<Rightarrow> imageData" where
  "solid w h r g b a = \<lparr>iwidth = w, iheight = h, data = concat (replicate (w * h) [r, g, b, a])\<rparr>"

definition lum_of :: "(real \<Rightarrow> real) \<Rightarrow> u8 \<Rightarrow> u8 \<Rightarrow> u8 \<Rightarrow> jsnum" where
  "lum_of rnd r g b =
     fadd rnd
       (fadd rnd (fmul rnd (lit rnd (299 / 1000)) (Num (real (unat r))))
                 (fmul rnd (lit rnd (587 / 1000)) (Num (real (unat g)))))
       (fmul rnd (lit rnd (114 / 1000)) (Num (real (unat b))))"

definition const_step :: "(real \<Rightarrow> real) \<Rightarrow> jsnum \<Rightarrow> jsnum \<Rightarrow> win_stats \<Rightarrow> win_stats" where
  "const_step rnd lumX lumY w =
     w\<lparr>windowHasOpaquePixel := True,
       sumX := fadd rnd (sumX w) lumX,
       sumY := fadd rnd (sumY w) lumY,
       sumX2 := fadd rnd (sumX2 w) (fsq rnd lumX),
       sumY2 := fadd rnd (sumY2 w) (fsq rnd lumY),
       sumXY := fadd rnd (sumXY w) (fmul rnd lumX lumY),
       numPixels := numPixels w + 1\<rparr>"

text \<open>
  The specification's wording of SSIM, for comparison with the loops: the image is cut
  into the 8 by 8 windows that lie fully inside it, a window without an included pixel is
  skipped, and the result is the mean of the values of the other windows, clamped to
  [0,1], or 1 when there is none. The statistics and the value of a single window are
  those of the code (\<open>window_stats\<close>, \<open>window_ssim\<close>).
\<close>

definition window_origins :: "nat \<Rightarrow> nat list" where
  "window_origins extent = map (\<lambda>k. k * WINDOW_SIZE) [0..<extent div WINDOW_SIZE]"

definition windows :: "imageData \<Rightarrow> (nat \<times> nat) list" where
  "windows a = concat (map (\<lambda>y. map (\<lambda>x. (x, y)) (window_origins (iwidth a))) (window_origins (iheight a)))"

definition contributes :: "win_stats \<Rightarrow> bool" where
  "contributes w = (windowHasOpaquePixel w \<and> numPixels w \<noteq> 0)"

definition window_values :: "(real \<Rightarrow> real) \<Rightarrow> imageData \<Rightarrow> imageData \<Rightarrow> jsnum list" where
  "window_values rnd a b =
     map (window_ssim rnd)
       (filter contributes
          (map (\<lambda>(x, y). window_stats rnd (data a) (data b) (iwidth a) x y) (windows a)))"

definition ssim_spec :: "(real \<Rightarrow> real) \<Rightarrow> imageData \<Rightarrow> imageData \<Rightarrow> jsnum" where
  "ssim_spec rnd a b =
     (if iwidth a < WINDOW_SIZE \<or> iheight a < WINDOW_SIZE then Num 1
      else
        let vals = window_values rnd a b in
        if vals = [] then Num 1
        else js_max (Num 0)
               (js_min (Num 1)
                  (fdiv rnd (fold (\<lambda>v total. fadd rnd total v) vals (Num 0))
                     (Num (real (length vals))))))"

text \<open>One turn of the loop over \<open>x\<close>, as a function of the window's statistics.\<close>

definition window_step :: "(real \<Rightarrow> real) \<Rightarrow> win_stats \<Rightarrow> jsnum \<times> nat \<Rightarrow> jsnum \<times> nat" where
  "window_step rnd w acc =
     (if contributes w then (fadd rnd (fst acc) (window_ssim rnd w), snd acc + 1) else acc)"



text \<open>The luminance of a colour as a real, and an accumulator after the 64 additions of a
  window.\<close>

definition lum_val :: "(real \<Rightarrow> real) \<Rightarrow> u8 \<Rightarrow> u8 \<Rightarrow> u8 \<Rightarrow> real" where
  "lum_val rnd r g b =
     rnd (rnd (rnd (rnd (299 / 1000) * real (unat r)) + rnd (rnd (587 / 1000) * real (unat g)))
          + rnd (rnd (114 / 1000) * real (unat b)))"

definition chain :: "(real \<Rightarrow> real) \<Rightarrow> real \<Rightarrow> real" where
  "chain rnd v = fold (\<lambda>j. fold (\<lambda>i s. rnd (s + v)) [0..<8]) [0..<8] 0"

definition solid_stats :: "(real \<Rightarrow> real) \<Rightarrow> real \<Rightarrow> real \<Rightarrow> win_stats" where
  "solid_stats rnd lx ly =
     \<lparr>sumX = Num (chain rnd lx), sumY = Num (chain rnd ly),
      sumX2 = Num (chain rnd (rnd (lx * lx))), sumY2 = Num (chain rnd (rnd (ly * ly))),
      sumXY = Num (chain rnd (rnd (lx * ly))), numPixels = 64, windowHasOpaquePixel = True\<rparr>"


definition black8 :: imageData where
  "black8 = solid 8 8 0 0 0 255"

definition white8 :: imageData where
  "white8 = solid 8 8 255 255 255 255"

definition black7x8 :: imageData where
  "black7x8 = solid 7 8 0 0 0 255"

definition white7x8 :: imageData where
  "white7x8 = solid 7 8 255 255 255 255"

section \<open>Properties\<close>

subsection \<open>Rounding to a double\<close>

text \<open>
  What the rest uses of \<open>binary64\<close>: it is the identity on the integers below \<open>2^53\<close>,
  it is monotone and odd, and its error is at most \<open>2^-53\<close> of the magnitude (in the
  subnormal range, at most \<open>2^-1075\<close>).
\<close>

lemma round_half_even_near: "\<bar>real_of_int (round_half_even q) - q\<bar> \<le> 1 / 2"
  unfolding round_half_even_def Let_def by (auto split: if_splits)

lemma round_half_even_mono_bounds:
  assumes "real_of_int lo \<le> q" and "q \<le> real_of_int hi"
  shows "lo \<le> round_half_even q \<and> round_half_even q \<le> hi"
proof -
  have f: "lo \<le> \<lfloor>q\<rfloor>" using assms(1) by (simp add: le_floor_iff)
  have c: "\<lfloor>q\<rfloor> \<le> hi" using assms(2) by (simp add: floor_le_iff)
  have "\<lfloor>q\<rfloor> + 1 \<le> hi" if "q - of_int \<lfloor>q\<rfloor> \<ge> 1 / 2"
  proof -
    have "real_of_int \<lfloor>q\<rfloor> < real_of_int hi" using that assms(2) by linarith
    then show ?thesis by simp
  qed
  then show ?thesis
    using f c unfolding round_half_even_def Let_def by (auto split: if_splits)
qed

lemma floorlog2_bounds:
  fixes n :: nat
  assumes n1: "0 < n"
  shows "2 ^ (floorlog 2 n - 1) \<le> n \<and> n < 2 ^ floorlog 2 n"
  by (rule floorlog_bounds [OF n1]) simp

lemma floorlog2_pos:
  fixes n :: nat
  assumes n1: "0 < n"
  shows "0 < floorlog 2 n"
  using n1 by (simp add: floorlog_def)

lemma powi_nat_pred: "0 < f \<Longrightarrow> (2::real) powi (int f - 1) = 2 ^ (f - 1)"
proof -
  assume "0 < f"
  then have "int f - 1 = int (f - 1)" by simp
  then show ?thesis by (simp only: power_int_of_nat)
qed

lemma powi_nat: "(2::real) powi (int f) = 2 ^ f"
  by (rule power_int_of_nat)

lemma ilog2_bounds_ge1:
  fixes x :: real
  assumes "1 \<le> x"
  shows "2 powi (ilog2 x) \<le> x \<and> x < 2 powi (ilog2 x + 1)"
proof -
  define n where "n = nat \<lfloor>x\<rfloor>"
  define f where "f = floorlog 2 n"
  have n1: "0 < n" using assms by (simp add: n_def)
  have "0 \<le> \<lfloor>x\<rfloor>" using assms by simp
  then have "real n = of_int \<lfloor>x\<rfloor>" by (simp add: n_def)
  then have nx: "real n \<le> x" "x < real n + 1" by linarith+
  have b: "2 ^ (f - 1) \<le> n" "n < 2 ^ f"
    using floorlog2_bounds [OF n1] by (simp_all add: f_def)
  have f1: "0 < f" unfolding f_def by (rule floorlog2_pos [OF n1])
  have e: "ilog2 x = int f - 1" using assms by (simp add: ilog2_def f_def n_def)
  have e1: "ilog2 x + 1 = int f" using e by simp
  have "real (2 ^ (f - 1)) \<le> real n" using b(1) by (rule of_nat_mono)
  then have lo: "(2::real) ^ (f - 1) \<le> real n" by simp
  have "n + 1 \<le> 2 ^ f" using b(2) by simp
  then have "real (n + 1) \<le> real (2 ^ f)" by (rule of_nat_mono)
  then have hi: "real n + 1 \<le> 2 ^ f" by simp
  show ?thesis unfolding e1 powi_nat unfolding e powi_nat_pred [OF f1] using nx lo hi by linarith
qed


lemma ilog2_bounds_lt1:
  fixes x :: real
  assumes "0 < x" and "x < 1"
  shows "2 powi (ilog2 x) \<le> x \<and> x < 2 powi (ilog2 x + 1)"
proof -
  define y where "y = 1 / x"
  define m where "m = nat (\<lceil>y\<rceil> - 1)"
  define f where "f = floorlog 2 m"
  have y1: "1 < y" using assms by (simp add: y_def)
  then have c2: "2 \<le> \<lceil>y\<rceil>" by linarith
  then have mr: "real m = of_int \<lceil>y\<rceil> - 1" by (simp add: m_def)
  have m1: "0 < m" using c2 by (simp add: m_def)
  have my: "real m < y" "y \<le> real m + 1" unfolding mr by linarith+
  have b: "2 ^ (f - 1) \<le> m" "m < 2 ^ f"
    using floorlog2_bounds [OF m1] by (simp_all add: f_def)
  have f1: "0 < f" unfolding f_def by (rule floorlog2_pos [OF m1])
  have "real (2 ^ (f - 1)) \<le> real m" using b(1) by (rule of_nat_mono)
  then have lo: "(2::real) ^ (f - 1) \<le> real m" by simp
  have "m + 1 \<le> 2 ^ f" using b(2) by simp
  then have "real (m + 1) \<le> real (2 ^ f)" by (rule of_nat_mono)
  then have hi: "real m + 1 \<le> 2 ^ f" by simp
  have ylo: "(2::real) ^ (f - 1) < y" and yhi: "y \<le> 2 ^ f" using my lo hi by linarith+
  have e: "ilog2 x = - int f" using assms by (simp add: ilog2_def f_def m_def y_def)
  have e1: "ilog2 x + 1 = - int (f - 1)" using e f1 by simp
  have p0: "(2::real) powi (- int f) = 1 / 2 ^ f"
    by (simp add: power_int_minus power_int_of_nat field_simps)
  have p1: "(2::real) powi (- int (f - 1)) = 1 / 2 ^ (f - 1)"
    by (simp add: power_int_minus power_int_of_nat field_simps)
  have xy: "x = 1 / y" using assms by (simp add: y_def)
  have ypos: "0 < y" using y1 by simp
  have A: "1 / 2 ^ f \<le> 1 / y" using yhi ypos by (intro divide_left_mono) simp_all
  have B: "1 / y < 1 / 2 ^ (f - 1)" using ylo ypos by (intro divide_strict_left_mono) simp_all
  have q0: "2 powi (ilog2 x) = 1 / (2::real) ^ f" unfolding e by (rule p0)
  have q1: "2 powi (ilog2 x + 1) = 1 / (2::real) ^ (f - 1)" unfolding e1 by (rule p1)
  from A B show ?thesis unfolding q0 q1 xy [symmetric] by (rule conjI)
qed

lemma ilog2_bounds:
  fixes x :: real
  assumes "0 < x"
  shows "2 powi (ilog2 x) \<le> x \<and> x < 2 powi (ilog2 x + 1)"
proof (cases "1 \<le> x")
  case True
  then show ?thesis by (rule ilog2_bounds_ge1)
next
  case False
  then have "x < 1" by simp
  with assms show ?thesis by (rule ilog2_bounds_lt1)
qed


lemma round_half_even_of_int: "round_half_even (of_int n) = n"
  by (simp add: round_half_even_def)

lemma round_half_even_mono:
  assumes "p \<le> q"
  shows "round_half_even p \<le> round_half_even q"
proof (cases "\<lfloor>p\<rfloor> = \<lfloor>q\<rfloor>")
  case True
  then show ?thesis
    using assms unfolding round_half_even_def Let_def by (auto split: if_splits)
next
  case False
  have "\<lfloor>p\<rfloor> \<le> \<lfloor>q\<rfloor>" using assms by (rule floor_mono)
  with False have "\<lfloor>p\<rfloor> + 1 \<le> \<lfloor>q\<rfloor>" by simp
  moreover have "round_half_even p \<le> \<lfloor>p\<rfloor> + 1"
    unfolding round_half_even_def Let_def by simp
  moreover have "\<lfloor>q\<rfloor> \<le> round_half_even q"
    unfolding round_half_even_def Let_def by simp
  ultimately show ?thesis by linarith
qed

lemma binary64_pos:
  "0 < x \<Longrightarrow> binary64 x = 2 powi (max (ilog2 x) (- 1022) - 52)
      * of_int (round_half_even (x / 2 powi (max (ilog2 x) (- 1022) - 52)))"
  by (simp add: binary64_def Let_def)

lemma binary64_zero: "binary64 0 = 0"
  by (simp add: binary64_def)

lemma binary64_uminus: "binary64 (- x) = - binary64 x"
  by (simp add: binary64_def Let_def sgn_minus)

lemma powi_split: "(2::real) powi e = 2 powi (e - 52) * 2 ^ 52"
proof -
  have "e = (e - 52) + 52" by simp
  then have "(2::real) powi e = 2 powi ((e - 52) + 52)" by (rule arg_cong)
  also have "\<dots> = 2 powi (e - 52) * 2 powi 52" by (rule power_int_add) simp
  finally show ?thesis by simp
qed

lemma powi_succ: "(2::real) powi (e + 1) = 2 powi (e - 52) * 2 ^ 53"
proof -
  have "e + 1 = (e - 52) + 53" by simp
  then have "(2::real) powi (e + 1) = 2 powi ((e - 52) + 53)" by (rule arg_cong)
  also have "\<dots> = 2 powi (e - 52) * 2 powi 53" by (rule power_int_add) simp
  finally show ?thesis by simp
qed

lemma powi_pred: "(2::real) powi (e - 53) = 2 powi (e - 52) * (1 / 2)"
proof -
  have "e - 53 = (e - 52) + (- 1)" by simp
  then have "(2::real) powi (e - 53) = 2 powi ((e - 52) + (- 1))" by (rule arg_cong)
  also have "\<dots> = 2 powi (e - 52) * 2 powi (- 1)" by (rule power_int_add) simp
  finally show ?thesis by (simp add: power_int_minus)
qed

text \<open>A positive number: its double lies between 0 and the end of its binade, within half
  a spacing of it.\<close>

lemma binary64_pos_bounds:
  assumes "0 < x"
  shows "0 \<le> binary64 x" and "binary64 x \<le> 2 powi (max (ilog2 x) (- 1022) + 1)"
    and "\<bar>binary64 x - x\<bar> \<le> 2 powi (max (ilog2 x) (- 1022) - 53)"
proof -
  define E where "E = max (ilog2 x) (- 1022)"
  define u :: real where "u = 2 powi (E - 52)"
  define q where "q = x / u"
  define m where "m = round_half_even q"
  have u: "0 < u" by (simp add: u_def)
  have xq: "x = u * q" using u by (simp add: q_def)
  have bx: "binary64 x = u * of_int m"
    unfolding m_def q_def u_def E_def by (rule binary64_pos [OF assms])
  have "ilog2 x + 1 \<le> E + 1" by (simp add: E_def)
  then have "(2::real) powi (ilog2 x + 1) \<le> 2 powi (E + 1)"
    by (intro power_int_increasing) simp_all
  moreover have "x < 2 powi (ilog2 x + 1)" using ilog2_bounds [OF assms] by simp
  ultimately have hi: "x < u * 2 ^ 53" unfolding u_def powi_succ [of E, symmetric] by linarith
  have q0: "0 \<le> q" using assms u by (simp add: q_def)
  have qhi: "q \<le> 2 ^ 53" using hi u unfolding xq by simp
  have "real_of_int 0 \<le> q" and "q \<le> real_of_int (2 ^ 53)" using q0 qhi by simp_all
  then have "0 \<le> m \<and> m \<le> 2 ^ 53" unfolding m_def by (rule round_half_even_mono_bounds)
  then have "real_of_int 0 \<le> of_int m" and "real_of_int m \<le> of_int (2 ^ 53)"
    by (simp_all only: of_int_le_iff)
  then have mlo: "0 \<le> real_of_int m" and mhi: "real_of_int m \<le> 2 ^ 53" by simp_all
  show "0 \<le> binary64 x" unfolding bx using mlo u by simp
  show "binary64 x \<le> 2 powi (max (ilog2 x) (- 1022) + 1)"
    unfolding bx E_def [symmetric] powi_succ [of E] u_def [symmetric] using mhi u by simp
  have near: "\<bar>real_of_int m - q\<bar> \<le> 1 / 2" unfolding m_def by (rule round_half_even_near)
  have "binary64 x - x = u * of_int m - u * q" using bx xq by simp
  then have "binary64 x - x = u * (of_int m - q)" by (simp add: algebra_simps)
  then have "\<bar>binary64 x - x\<bar> = u * \<bar>of_int m - q\<bar>" using u by (simp add: abs_mult)
  also have "\<dots> \<le> u * (1 / 2)" using near u by (intro mult_left_mono) simp_all
  finally show "\<bar>binary64 x - x\<bar> \<le> 2 powi (max (ilog2 x) (- 1022) - 53)"
    unfolding E_def [symmetric] powi_pred [of E] u_def [symmetric] .
qed

text \<open>A positive number of the normal range: its double stays in its binade, and the
  relative error is at most \<open>2^-53\<close>.\<close>

lemma binary64_normal_bounds:
  assumes "0 < x" and "- 1022 \<le> ilog2 x"
  shows "2 powi (ilog2 x) \<le> binary64 x" and "\<bar>binary64 x - x\<bar> \<le> x / 2 ^ 53"
proof -
  define u :: real where "u = 2 powi (ilog2 x - 52)"
  define q where "q = x / u"
  define m where "m = round_half_even q"
  have E: "max (ilog2 x) (- 1022) = ilog2 x" using assms(2) by simp
  have u: "0 < u" by (simp add: u_def)
  have xq: "x = u * q" using u by (simp add: q_def)
  have bx: "binary64 x = u * of_int m"
    unfolding m_def q_def u_def using binary64_pos [OF assms(1)] unfolding E .
  from ilog2_bounds [OF assms(1)] have lo: "u * 2 ^ 52 \<le> x"
    unfolding u_def powi_split [of "ilog2 x", symmetric] by simp
  have qlo: "2 ^ 52 \<le> q" using lo u unfolding xq by simp
  have "real_of_int (2 ^ 52) \<le> q" and "q \<le> real_of_int \<lceil>q\<rceil>" using qlo by simp_all
  then have "2 ^ 52 \<le> m \<and> m \<le> \<lceil>q\<rceil>" unfolding m_def by (rule round_half_even_mono_bounds)
  then have "real_of_int (2 ^ 52) \<le> of_int m" by (simp only: of_int_le_iff)
  then have mlo: "2 ^ 52 \<le> real_of_int m" by simp
  show "2 powi (ilog2 x) \<le> binary64 x"
    unfolding bx powi_split [of "ilog2 x"] u_def [symmetric] using mlo u by simp
  have "\<bar>binary64 x - x\<bar> \<le> 2 powi (ilog2 x - 53)"
    using binary64_pos_bounds(3) [OF assms(1)] unfolding E .
  also have "\<dots> = u * 2 ^ 52 / 2 ^ 53" unfolding powi_pred [of "ilog2 x"] u_def by simp
  also have "\<dots> \<le> x / 2 ^ 53" using lo by (intro divide_right_mono) simp_all
  finally show "\<bar>binary64 x - x\<bar> \<le> x / 2 ^ 53" .
qed

text \<open>Below \<open>2^-1022\<close> the doubles are the multiples of \<open>2^-1074\<close>.\<close>

lemma binary64_subnormal:
  assumes "0 < x" and "x < 2 powi (- 1022)"
  shows "binary64 x = 2 powi (- 1074) * of_int (round_half_even (x / 2 powi (- 1074)))"
proof -
  have "ilog2 x < - 1022"
  proof (rule ccontr)
    assume "\<not> ilog2 x < - 1022"
    then have "- 1022 \<le> ilog2 x" by simp
    then have "(2::real) powi (- 1022) \<le> 2 powi (ilog2 x)" by (intro power_int_increasing) simp_all
    moreover have "2 powi (ilog2 x) \<le> x" using ilog2_bounds [OF assms(1)] by simp
    ultimately show False using assms(2) by linarith
  qed
  then have "max (ilog2 x) (- 1022) - 52 = - 1074" by simp
  with binary64_pos [OF assms(1)] show ?thesis by simp
qed

lemma binary64_nonneg: "0 \<le> x \<Longrightarrow> 0 \<le> binary64 x"
  using binary64_pos_bounds(1) [of x] by (cases "x = 0") (simp_all add: binary64_zero less_eq_real_def)

lemma ilog2_mono:
  assumes "0 < x" and "x \<le> y"
  shows "ilog2 x \<le> ilog2 y"
proof (rule ccontr)
  assume "\<not> ilog2 x \<le> ilog2 y"
  then have "ilog2 y + 1 \<le> ilog2 x" by simp
  then have "(2::real) powi (ilog2 y + 1) \<le> 2 powi (ilog2 x)"
    by (intro power_int_increasing) simp_all
  moreover have "y < 2 powi (ilog2 y + 1)" using ilog2_bounds [of y] assms by simp
  moreover have "2 powi (ilog2 x) \<le> x" using ilog2_bounds [of x] assms by simp
  ultimately show False using assms(2) by linarith
qed

lemma binary64_mono_pos:
  assumes "0 < x" and "x \<le> y"
  shows "binary64 x \<le> binary64 y"
proof (cases "max (ilog2 x) (- 1022) = max (ilog2 y) (- 1022)")
  case True
  define u :: real where "u = 2 powi (max (ilog2 y) (- 1022) - 52)"
  have u: "0 < u" by (simp add: u_def)
  have y: "0 < y" using assms by simp
  have "x / u \<le> y / u" using assms(2) u by (intro divide_right_mono) simp_all
  then have "round_half_even (x / u) \<le> round_half_even (y / u)" by (rule round_half_even_mono)
  then have "real_of_int (round_half_even (x / u)) \<le> real_of_int (round_half_even (y / u))"
    by (simp only: of_int_le_iff)
  then have "u * real_of_int (round_half_even (x / u)) \<le> u * real_of_int (round_half_even (y / u))"
    using u by (intro mult_left_mono) simp_all
  then show ?thesis
    unfolding binary64_pos [OF assms(1)] binary64_pos [OF y] True u_def .
next
  case False
  have y: "0 < y" using assms by simp
  have le: "ilog2 x \<le> ilog2 y" by (rule ilog2_mono [OF assms])
  with False have n: "- 1022 \<le> ilog2 y" and s: "max (ilog2 x) (- 1022) + 1 \<le> ilog2 y" by simp_all
  from s have "(2::real) powi (max (ilog2 x) (- 1022) + 1) \<le> 2 powi (ilog2 y)"
    by (intro power_int_increasing) simp_all
  moreover have "binary64 x \<le> 2 powi (max (ilog2 x) (- 1022) + 1)"
    using assms(1) by (rule binary64_pos_bounds)
  moreover have "2 powi (ilog2 y) \<le> binary64 y" using y n by (rule binary64_normal_bounds)
  ultimately show ?thesis by linarith
qed

lemma binary64_mono:
  assumes "x \<le> y"
  shows "binary64 x \<le> binary64 y"
proof -
  consider "0 < x" | "x \<le> 0" "0 \<le> y" | "y < 0" by linarith
  then show ?thesis
  proof cases
    case 1
    then show ?thesis using assms by (rule binary64_mono_pos)
  next
    case 2
    have "binary64 x \<le> 0" using binary64_nonneg [of "- x"] 2(1) by (simp add: binary64_uminus)
    moreover have "0 \<le> binary64 y" using 2(2) by (rule binary64_nonneg)
    ultimately show ?thesis by linarith
  next
    case 3
    then have "0 < - y" "- y \<le> - x" using assms by simp_all
    then have "binary64 (- y) \<le> binary64 (- x)" by (rule binary64_mono_pos)
    then show ?thesis by (simp add: binary64_uminus)
  qed
qed

text \<open>The error of one rounding: at most \<open>2^-53\<close> of the magnitude in the normal range,
  at most half the spacing \<open>2^-1074\<close> of the subnormal numbers below it.\<close>

lemma binary64_error:
  "\<bar>binary64 x - x\<bar> \<le> \<bar>x\<bar> / 2 ^ 53 + 1 / 2 ^ 1075"
proof -
  have pos: "\<bar>binary64 x - x\<bar> \<le> x / 2 ^ 53 + 1 / 2 ^ 1075" if "0 < x" for x
  proof (cases "- 1022 \<le> ilog2 x")
    case True
    from binary64_normal_bounds(2) [OF that True] show ?thesis by simp
  next
    case False
    then have E: "max (ilog2 x) (- 1022) = - 1022" by simp
    have "(2::real) powi (- 1022 - 53) = 1 / 2 ^ 1075"
      by (simp add: power_int_minus field_simps)
    with binary64_pos_bounds(3) [OF that] have "\<bar>binary64 x - x\<bar> \<le> 1 / 2 ^ 1075"
      unfolding E by simp
    moreover have "0 \<le> x / 2 ^ 53" using that by simp
    ultimately show ?thesis by linarith
  qed
  consider "0 < x" | "x = 0" | "x < 0" by linarith
  then show ?thesis
  proof cases
    case 1
    then show ?thesis using pos [of x] by simp
  next
    case 2
    then show ?thesis by (simp add: binary64_zero)
  next
    case 3
    then have "0 < - x" by simp
    from pos [OF this] have "\<bar>- binary64 x + x\<bar> \<le> - x / 2 ^ 53 + 1 / 2 ^ 1075"
      by (simp add: binary64_uminus)
    moreover have "\<bar>- binary64 x + x\<bar> = \<bar>binary64 x - x\<bar>" by linarith
    ultimately show ?thesis using 3 by simp
  qed
qed

lemma binary64_of_nat:
  assumes "n < 2 ^ 53"
  shows "binary64 (real n) = real n"
proof (cases "n = 0")
  case True
  then show ?thesis by (simp add: binary64_zero)
next
  case False
  then have pos: "0 < real n" by simp
  define e where "e = ilog2 (real n)"
  have "real n < real (2 ^ 53)" using assms by (simp only: of_nat_less_iff)
  then have n53: "real n < 2 powi 53" by simp
  have b: "2 powi e \<le> real n" "real n < 2 powi (e + 1)"
    unfolding e_def using ilog2_bounds [OF pos] by simp_all
  with n53 have "(2::real) powi e < 2 powi 53" by linarith
  have "e < 53"
  proof (rule ccontr)
    assume "\<not> e < 53"
    then have "53 \<le> e" by simp
    then have "(2::real) powi 53 \<le> 2 powi e" by (intro power_int_increasing) simp_all
    with \<open>2 powi e < 2 powi 53\<close> show False by linarith
  qed
  have "0 \<le> e"
  proof (rule ccontr)
    assume "\<not> 0 \<le> e"
    then have "e + 1 \<le> 0" by simp
    then have "(2::real) powi (e + 1) \<le> 2 powi 0" by (intro power_int_increasing) simp_all
    moreover have "1 \<le> real n" using False by simp
    ultimately show False using b(2) by simp
  qed
  then have E: "max e (- 1022) = e" by simp
  have k0: "0 \<le> 52 - e" using \<open>e < 53\<close> by simp
  define k where "k = nat (52 - e)"
  have ek: "e - 52 = - int k" using k0 by (simp add: k_def)
  have u: "(2::real) powi (e - 52) = 1 / 2 ^ k"
    unfolding ek by (simp add: power_int_minus power_int_of_nat field_simps)
  have q: "real n / (1 / 2 ^ k) = real_of_int (int n * 2 ^ k)" by simp
  have "binary64 (real n) = 1 / 2 ^ k * real_of_int (int n * 2 ^ k)"
    unfolding binary64_pos [OF pos] e_def [symmetric] E u q round_half_even_of_int ..
  then show ?thesis by simp
qed

lemma binary64_one: "binary64 1 = 1"
  using binary64_of_nat [of 1] by simp

lemma binary64_ge_one: "1 \<le> x \<Longrightarrow> 1 \<le> binary64 x"
  using binary64_mono [of 1 x] by (simp add: binary64_one)

lemma binary64_of_int:
  assumes "\<bar>n\<bar> < 2 ^ 53"
  shows "binary64 (of_int n) = of_int n"
proof (cases "0 \<le> n")
  case True
  then have "nat n < 2 ^ 53" using assms by (simp add: nat_less_iff)
  from binary64_of_nat [OF this] True show ?thesis by simp
next
  case False
  then have "nat (- n) < 2 ^ 53" using assms by (simp add: nat_less_iff)
  from binary64_of_nat [OF this] False have "binary64 (of_int (- n)) = of_int (- n)" by simp
  then show ?thesis by (simp add: binary64_uminus)
qed

lemma js_number_of_nat: "n < 2 ^ 53 \<Longrightarrow> js_number (real n)"
  unfolding js_number_def by (rule binary64_of_nat)

lemma binary64_numeral: "numeral k < (2::nat) ^ 53 \<Longrightarrow> binary64 (numeral k) = numeral k"
  using binary64_of_nat [of "numeral k"] by simp

text \<open>Evaluation of \<open>binary64\<close> on a rational literal.\<close>

lemmas b64 = binary64_def ilog2_def round_half_even_def Let_def compute_floorlog

subsection \<open>Resizer\<close>

lemma math_round_le: "x \<le> real n \<Longrightarrow> math_round x \<le> int n"
  unfolding math_round_def by linarith

lemma math_round_of_nat: "math_round (real n) = int n"
  unfolding math_round_def by linarith

text \<open>A dimension times a ratio of at most 1: the rounded product is at most the
  dimension, because the dimension is itself a double and rounding is monotone.\<close>

lemma scaled_dim:
  assumes "0 < n" and "js_number (real n)" and "r \<le> 1"
  shows "\<exists>k. js_max (Num 1) (js_round (fmul binary64 (Num (real n)) (Num r))) = Num (of_int k)
             \<and> 1 \<le> k \<and> k \<le> int n"
proof -
  have "real n * r \<le> real n" using assms(1,3) by (simp add: mult_left_le)
  then have "binary64 (real n * r) \<le> binary64 (real n)" by (rule binary64_mono)
  then have "binary64 (real n * r) \<le> real n" using assms(2) by (simp add: js_number_def)
  then have "math_round (binary64 (real n * r)) \<le> int n" by (rule math_round_le)
  then have "max 1 (math_round (binary64 (real n * r))) \<le> int n" using assms(1) by simp
  moreover have "js_max (Num 1) (js_round (fmul binary64 (Num (real n)) (Num r)))
        = Num (of_int (max 1 (math_round (binary64 (real n * r)))))"
    by (simp add: fmul_def max_def)
  ultimately show ?thesis
    by (intro exI [of _ "max 1 (math_round (binary64 (real n * r)))"]) simp
qed

lemma unscaled_dim:
  assumes "0 < n" and "js_number (real n)"
  shows "js_max (Num 1) (js_round (fmul binary64 (Num (real n)) (Num 1))) = Num (real n)"
proof -
  have "binary64 (real n) = real n" using assms(2) by (simp add: js_number_def)
  then show ?thesis using assms(1) by (simp add: fmul_def math_round_of_nat max_def)
qed

lemma ratio_Num:
  assumes "0 < a" and "0 < b"
  shows "js_min (fdiv binary64 (Num mw) (Num (real a)))
           (js_min (fdiv binary64 (Num mh) (Num (real b))) (Num 1))
           = Num (min (binary64 (mw / real a)) (min (binary64 (mh / real b)) 1))"
  using assms by (simp add: fdiv_def)

text \<open>A maximum that is at least the dimension gives a rounded quotient of at least 1.\<close>

lemma quotient_ge_one:
  assumes "0 < a" and "real a \<le> m"
  shows "1 \<le> binary64 (m / real a)"
proof -
  have "1 \<le> m / real a" using assms by simp
  then have "binary64 1 \<le> binary64 (m / real a)" by (rule binary64_mono)
  then show ?thesis by (simp add: binary64_one)
qed

lemma or_default_ge:
  "(v = None \<or> (\<exists>n. v = Some n \<and> int d \<le> n)) \<Longrightarrow> 0 < d \<Longrightarrow> real d \<le> or_default v d"
  by (auto simp: or_default_def)

text \<open>\<^verbatim>\<open>calculateCompressionSize\<close> is \<^verbatim>\<open>calculateDisplaySize\<close> at the maxima read from the
  two input fields; the sizes of the concrete states used below.\<close>

lemma compression_as_display:
  assumes "originalImage s = Some img" and "0 < naturalWidth img" and "0 < naturalHeight img"
  shows "calculateCompressionSize s =
           calculateDisplaySize (naturalWidth img) (naturalHeight img)
             (or_default (maxWidthValue s) (naturalWidth img))
             (or_default (maxHeightValue s) (naturalHeight img))"
  using assms by (simp add: calculateCompressionSize_def calculateDisplaySize_def Let_def)

lemma display_800_600:
  "calculateDisplaySize 800 600 800 600 = \<lparr>width = Num 800, height = Num 600\<rparr>"
  "calculateDisplaySize 800 600 400 600 = \<lparr>width = Num 400, height = Num 300\<rparr>"
  by (simp_all add: calculateDisplaySize_def math_round_def fdiv_def fmul_def b64)

lemma scenario_sizes:
  "calculateCompressionSize scenarioC_state = \<lparr>width = Num 800, height = Num 600\<rparr>"
  "calculateCompressionSize scenarioB_state = \<lparr>width = Num 400, height = Num 300\<rparr>"
  "calculateCompressionSize png_state = \<lparr>width = Num 800, height = Num 600\<rparr>"
  "calculateCompressionSize webp_state = \<lparr>width = Num 800, height = Num 600\<rparr>"
proof -
  let ?img = "\<lparr>naturalWidth = 800, naturalHeight = 600\<rparr>"
  have i: "originalImage scenarioC_state = Some ?img" "originalImage scenarioB_state = Some ?img"
    "originalImage png_state = Some ?img" "originalImage webp_state = Some ?img"
    by (simp_all add: scenarioC_state_def scenarioB_state_def png_state_def webp_state_def)
  have m: "or_default (maxWidthValue scenarioC_state) 800 = 800"
    "or_default (maxHeightValue scenarioC_state) 600 = 600"
    "or_default (maxWidthValue scenarioB_state) 800 = 400"
    "or_default (maxHeightValue scenarioB_state) 600 = 600"
    "or_default (maxWidthValue png_state) 800 = 800"
    "or_default (maxHeightValue png_state) 600 = 600"
    "or_default (maxWidthValue webp_state) 800 = 800"
    "or_default (maxHeightValue webp_state) 600 = 600"
    by (simp_all add: scenarioC_state_def scenarioB_state_def png_state_def webp_state_def
        or_default_def)
  show "calculateCompressionSize scenarioC_state = \<lparr>width = Num 800, height = Num 600\<rparr>"
    using compression_as_display [OF i(1)] by (simp add: m display_800_600)
  show "calculateCompressionSize scenarioB_state = \<lparr>width = Num 400, height = Num 300\<rparr>"
    using compression_as_display [OF i(2)] by (simp add: m display_800_600)
  show "calculateCompressionSize png_state = \<lparr>width = Num 800, height = Num 600\<rparr>"
    using compression_as_display [OF i(3)] by (simp add: m display_800_600)
  show "calculateCompressionSize webp_state = \<lparr>width = Num 800, height = Num 600\<rparr>"
    using compression_as_display [OF i(4)] by (simp add: m display_800_600)
qed

text \<open>
  C7. For an image whose natural dimensions are positive (and doubles, as every
  integer below \<open>2^53\<close> is), \<^verbatim>\<open>calculateCompressionSize\<close> and
  \<^verbatim>\<open>calculateDisplaySize\<close>, computing in binary64, return integer dimensions between 1
  and the source dimension: the ratio is at most 1, so nothing is upscaled. When both
  input fields are unset (\<^verbatim>\<open>parseInt\<close> gives \<^verbatim>\<open>NaN\<close>) or hold values at least the
  source dimensions, and when the two maxima passed to \<^verbatim>\<open>calculateDisplaySize\<close> are at
  least the source dimensions, the result is the source dimensions exactly.
\<close>

theorem resizer_never_upscales:
  assumes "originalImage s = Some img" and "0 < naturalWidth img" and "0 < naturalHeight img"
    and "js_number (real (naturalWidth img))" and "js_number (real (naturalHeight img))"
  shows "(\<exists>w h. calculateCompressionSize s = \<lparr>width = Num (of_int w), height = Num (of_int h)\<rparr>
            \<and> 1 \<le> w \<and> w \<le> int (naturalWidth img) \<and> 1 \<le> h \<and> h \<le> int (naturalHeight img))
       \<and> ((maxWidthValue s = None \<or> (\<exists>n. maxWidthValue s = Some n \<and> int (naturalWidth img) \<le> n))
           \<and> (maxHeightValue s = None \<or> (\<exists>n. maxHeightValue s = Some n \<and> int (naturalHeight img) \<le> n))
          \<longrightarrow> calculateCompressionSize s
                = \<lparr>width = Num (real (naturalWidth img)), height = Num (real (naturalHeight img))\<rparr>)
       \<and> (\<exists>w h. calculateDisplaySize (naturalWidth img) (naturalHeight img) maxWidth maxHeight
                  = \<lparr>width = Num (of_int w), height = Num (of_int h)\<rparr>
            \<and> 1 \<le> w \<and> w \<le> int (naturalWidth img) \<and> 1 \<le> h \<and> h \<le> int (naturalHeight img))
       \<and> (real (naturalWidth img) \<le> maxWidth \<and> real (naturalHeight img) \<le> maxHeight
          \<longrightarrow> calculateDisplaySize (naturalWidth img) (naturalHeight img) maxWidth maxHeight
                = \<lparr>width = Num (real (naturalWidth img)), height = Num (real (naturalHeight img))\<rparr>)"
proof -
  let ?nw = "naturalWidth img" and ?nh = "naturalHeight img"
  let ?mw = "or_default (maxWidthValue s) ?nw" and ?mh = "or_default (maxHeightValue s) ?nh"
  let ?r = "min (binary64 (?mw / real ?nw)) (min (binary64 (?mh / real ?nh)) 1)"
  let ?rd = "min (binary64 (maxWidth / real ?nw)) (min (binary64 (maxHeight / real ?nh)) 1)"
  have cs: "calculateCompressionSize s =
      \<lparr>width = js_max (Num 1) (js_round (fmul binary64 (Num (real ?nw)) (Num ?r))),
       height = js_max (Num 1) (js_round (fmul binary64 (Num (real ?nh)) (Num ?r)))\<rparr>"
    unfolding calculateCompressionSize_def Let_def assms(1) option.case
      ratio_Num [OF assms(2,3)] ..
  have nz: "\<not> (?nw = 0 \<or> ?nh = 0)" using assms(2,3) by simp
  have ds: "calculateDisplaySize ?nw ?nh maxWidth maxHeight =
      \<lparr>width = js_max (Num 1) (js_round (fmul binary64 (Num (real ?nw)) (Num ?rd))),
       height = js_max (Num 1) (js_round (fmul binary64 (Num (real ?nh)) (Num ?rd)))\<rparr>"
    unfolding calculateDisplaySize_def Let_def ratio_Num [OF assms(2,3)] using nz by (simp only: if_False)
  have r1: "?r \<le> 1" and rd1: "?rd \<le> 1" by simp_all
  have A: "\<exists>w h. calculateCompressionSize s = \<lparr>width = Num (of_int w), height = Num (of_int h)\<rparr>
            \<and> 1 \<le> w \<and> w \<le> int ?nw \<and> 1 \<le> h \<and> h \<le> int ?nh"
    using scaled_dim [OF assms(2,4) r1] scaled_dim [OF assms(3,5) r1] unfolding cs by auto
  have C: "\<exists>w h. calculateDisplaySize ?nw ?nh maxWidth maxHeight
                  = \<lparr>width = Num (of_int w), height = Num (of_int h)\<rparr>
            \<and> 1 \<le> w \<and> w \<le> int ?nw \<and> 1 \<le> h \<and> h \<le> int ?nh"
    using scaled_dim [OF assms(2,4) rd1] scaled_dim [OF assms(3,5) rd1] unfolding ds by auto
  have B: "calculateCompressionSize s = \<lparr>width = Num (real ?nw), height = Num (real ?nh)\<rparr>"
    if "(maxWidthValue s = None \<or> (\<exists>n. maxWidthValue s = Some n \<and> int ?nw \<le> n))
        \<and> (maxHeightValue s = None \<or> (\<exists>n. maxHeightValue s = Some n \<and> int ?nh \<le> n))"
  proof -
    from that have "real ?nw \<le> ?mw" "real ?nh \<le> ?mh"
      using or_default_ge assms(2,3) by blast+
    then have "1 \<le> binary64 (?mw / real ?nw)" "1 \<le> binary64 (?mh / real ?nh)"
      using assms(2,3) by (simp_all add: quotient_ge_one)
    then have "?r = 1" by simp
    then show ?thesis
      using cs unscaled_dim [OF assms(2,4)] unscaled_dim [OF assms(3,5)] by simp
  qed
  have D: "calculateDisplaySize ?nw ?nh maxWidth maxHeight
            = \<lparr>width = Num (real ?nw), height = Num (real ?nh)\<rparr>"
    if "real ?nw \<le> maxWidth \<and> real ?nh \<le> maxHeight"
  proof -
    from that have "1 \<le> binary64 (maxWidth / real ?nw)" "1 \<le> binary64 (maxHeight / real ?nh)"
      using assms(2,3) by (simp_all add: quotient_ge_one)
    then have "?rd = 1" by simp
    then show ?thesis
      using ds unscaled_dim [OF assms(2,4)] unscaled_dim [OF assms(3,5)] by simp
  qed
  from A B C D show ?thesis by blast
qed

text \<open>Scenario A (800 by 600, no constraint) keeps its size; scenario B (maximal width 400)
  gives 400 by 300. The rounding decides the height of a 10 by 45 image under a maximal
  width of 7, and of a 928 by 145 image displayed in 400 by 400: the rounded products
  lie just below 31.5 and 62.5, where the exact ones are 31.5 and 62.5.\<close>

theorem resizer_never_upscales_witness:
  "originalImage scenarioC_state = Some \<lparr>naturalWidth = 800, naturalHeight = 600\<rparr>
   \<and> js_number 800 \<and> js_number 600
   \<and> maxWidthValue scenarioC_state = None \<and> maxHeightValue scenarioC_state = None
   \<and> calculateCompressionSize scenarioC_state = \<lparr>width = Num 800, height = Num 600\<rparr>
   \<and> calculateDisplaySize 800 600 1000 1000 = \<lparr>width = Num 800, height = Num 600\<rparr>
   \<and> calculateCompressionSize scenarioB_state = \<lparr>width = Num 400, height = Num 300\<rparr>
   \<and> calculateDisplaySize 800 600 400 400 = \<lparr>width = Num 400, height = Num 300\<rparr>
   \<and> calculateDisplaySize 10 45 7 100000 = \<lparr>width = Num 7, height = Num 31\<rparr>
   \<and> calculateDisplaySize 928 145 400 400 = \<lparr>width = Num 400, height = Num 62\<rparr>"
proof -
  have h: "originalImage scenarioC_state = Some \<lparr>naturalWidth = 800, naturalHeight = 600\<rparr>"
    "maxWidthValue scenarioC_state = None" "maxHeightValue scenarioC_state = None"
    by (simp_all add: scenarioC_state_def)
  have n: "js_number 800" "js_number 600"
    using js_number_of_nat [of 800] js_number_of_nat [of 600] by simp_all
  have b: "calculateCompressionSize scenarioB_state = \<lparr>width = Num 400, height = Num 300\<rparr>"
    by (rule scenario_sizes)
  have d: "calculateDisplaySize 800 600 400 400 = \<lparr>width = Num 400, height = Num 300\<rparr>"
    by (simp add: calculateDisplaySize_def math_round_def fdiv_def fmul_def b64)
  have e: "calculateDisplaySize 10 45 7 100000 = \<lparr>width = Num 7, height = Num 31\<rparr>"
    by (simp add: calculateDisplaySize_def math_round_def fdiv_def fmul_def b64)
  have f: "calculateDisplaySize 928 145 400 400 = \<lparr>width = Num 400, height = Num 62\<rparr>"
    by (simp add: calculateDisplaySize_def math_round_def fdiv_def fmul_def b64)
  from resizer_never_upscales [OF h(1), of 1000 1000] h n b d e f show ?thesis
    by simp
qed

subsection \<open>Dead-zone search\<close>

lemma js_max_one_not_zero: "js_max (Num 1) x \<noteq> Num 0"
  by (cases x) auto

lemma compression_size_nonzero:
  "originalImage s \<noteq> None \<Longrightarrow>
     width (calculateCompressionSize s) \<noteq> Num 0 \<and> height (calculateCompressionSize s) \<noteq> Num 0"
  by (auto simp: calculateCompressionSize_def Let_def js_max_one_not_zero)

text \<open>Probes that exceed the reference are passed over, each leaving its quality in
  \<open>thresholdQuality\<close>.\<close>

lemma dz_scan_exceeding:
  "\<forall>p \<in> set pre. exceeds toBlob ref p \<Longrightarrow>
     dz_scan toBlob ref (pre @ rest) th cmds =
       dz_scan toBlob ref rest (if pre = [] then th else last pre)
         (cmds @ map (ToBlob ''image/jpeg'') pre)"
proof (induction pre arbitrary: th cmds)
  case Nil
  then show ?case by simp
next
  case (Cons p pre)
  from Cons.prems obtain sz where "toBlob p = Blob sz" "sz > ref"
    by (auto simp: exceeds_def split: blob_result.splits)
  moreover from Cons.prems have "\<forall>p \<in> set pre. exceeds toBlob ref p" by simp
  ultimately show ?case
    using Cons.IH [of p "cmds @ [ToBlob ''image/jpeg'' p]"] by simp
qed

lemma dz_scan_stop:
  "\<not> exceeds toBlob ref q \<Longrightarrow>
     dz_scan toBlob ref (q # rest) th cmds = (q + 1, cmds @ [ToBlob ''image/jpeg'' q])"
  by (auto simp: exceeds_def split: blob_result.splits)





lemma findDeadZoneThreshold_searchable:
  assumes "searchable s"
  shows "findDeadZoneThreshold toBlob s =
     (let sz = calculateCompressionSize s;
          r = dz_scan toBlob (originalSize s) testQualities 101
                ([CreateCanvas (width sz) (height sz)]
                   @ white_fill (originalFile s) (width sz) (height sz)
                   @ [DrawImage (Num 0) (Num 0) (width sz) (height sz)])
      in (max 1 (min (fst r) 101), snd r))"
  using assms compression_size_nonzero [of s]
  by (auto simp: findDeadZoneThreshold_def searchable_def Let_def split: prod.splits)



text \<open>
  C2, as the code has it. A probe that exceeds the reference stores its own quality in
  \<open>thresholdQuality\<close> (not the quality plus one), so when every candidate exceeds the
  reference the search returns the lowest tested quality, 70. When the first candidate,
  99, does not exceed the reference it returns 100. Every result lies in [1,101].
\<close>

theorem dead_zone_edges:
  "(searchable s \<and> (\<forall>q \<in> set testQualities. exceeds toBlob (originalSize s) q)
      \<longrightarrow> fst (findDeadZoneThreshold toBlob s) = 70)
   \<and> (searchable s \<and> \<not> exceeds toBlob (originalSize s) 99
      \<longrightarrow> fst (findDeadZoneThreshold toBlob s) = 100)
   \<and> 1 \<le> fst (findDeadZoneThreshold toBlob s)
   \<and> fst (findDeadZoneThreshold toBlob s) \<le> 101"
proof (intro conjI impI)
  assume a: "searchable s \<and> (\<forall>q \<in> set testQualities. exceeds toBlob (originalSize s) q)"
  then have "dz_scan toBlob (originalSize s) (testQualities @ []) 101 cmds =
      dz_scan toBlob (originalSize s) [] (last testQualities)
        (cmds @ map (ToBlob ''image/jpeg'') testQualities)" for cmds
    using dz_scan_exceeding [of testQualities toBlob "originalSize s" "[]" 101 cmds]
    by (simp add: testQualities_def)
  then have "fst (dz_scan toBlob (originalSize s) testQualities 101 cmds) = 70" for cmds
    by (simp add: testQualities_def)
  with a show "fst (findDeadZoneThreshold toBlob s) = 70"
    by (simp add: findDeadZoneThreshold_searchable Let_def)
next
  assume a: "searchable s \<and> \<not> exceeds toBlob (originalSize s) 99"
  then have "dz_scan toBlob (originalSize s) testQualities 101 cmds =
      (100, cmds @ [ToBlob ''image/jpeg'' 99])" for cmds
    unfolding testQualities_def using dz_scan_stop [of toBlob "originalSize s" 99] by simp
  with a show "fst (findDeadZoneThreshold toBlob s) = 100"
    by (simp add: findDeadZoneThreshold_searchable Let_def)
next
  show "1 \<le> fst (findDeadZoneThreshold toBlob s)"
    by (simp add: findDeadZoneThreshold_def Let_def split: prod.splits)
next
  show "fst (findDeadZoneThreshold toBlob s) \<le> 101"
    by (simp add: findDeadZoneThreshold_def Let_def split: prod.splits)
qed

theorem dead_zone_edges_witness:
  "searchable scenarioC_state
   \<and> list_all (exceeds all_exceed_toBlob (originalSize scenarioC_state)) testQualities
   \<and> fst (findDeadZoneThreshold all_exceed_toBlob scenarioC_state) = 70
   \<and> \<not> exceeds all_under_toBlob (originalSize scenarioC_state) 99
   \<and> fst (findDeadZoneThreshold all_under_toBlob scenarioC_state) = 100"
proof -
  have h1: "searchable scenarioC_state"
    by (simp add: searchable_def scenarioC_state_def)
  have h2: "\<forall>q \<in> set testQualities. exceeds all_exceed_toBlob (originalSize scenarioC_state) q"
    by (simp add: exceeds_def all_exceed_toBlob_def scenarioC_state_def)
  have h3: "\<not> exceeds all_under_toBlob (originalSize scenarioC_state) 99"
    by (simp add: exceeds_def all_under_toBlob_def scenarioC_state_def)
  from dead_zone_edges [of scenarioC_state all_exceed_toBlob]
    dead_zone_edges [of scenarioC_state all_under_toBlob] h1 h2 h3
  show ?thesis by (simp add: list_all_iff)
qed

text \<open>With a reference of 50000 bytes and every probe giving 60000 bytes, every candidate
  exceeds the reference and the search returns 70, not 71.\<close>

theorem dead_zone_all_exceed_counterexample:
  "list_all (exceeds all_exceed_toBlob (originalSize scenarioC_state)) testQualities
   \<and> fst (findDeadZoneThreshold all_exceed_toBlob scenarioC_state) = 70
   \<and> fst (findDeadZoneThreshold all_exceed_toBlob scenarioC_state) \<noteq> 71"
proof -
  have p: "originalImage scenarioC_state \<noteq> None" "originalFile scenarioC_state \<noteq> None"
    "originalSize scenarioC_state = 50000"
    by (simp_all add: scenarioC_state_def)
  have e: "list_all (exceeds all_exceed_toBlob (originalSize scenarioC_state)) testQualities"
    by (simp add: exceeds_def all_exceed_toBlob_def p testQualities_def)
  have "fst (findDeadZoneThreshold all_exceed_toBlob scenarioC_state) = 70"
    by (simp add: findDeadZoneThreshold_def p scenario_sizes all_exceed_toBlob_def
        testQualities_def Let_def)
  with e show ?thesis by simp
qed

subsection \<open>Flattening onto white\<close>

lemma dz_scan_cmds:
  "qs \<noteq> [] \<Longrightarrow>
     \<exists>ps. ps \<noteq> [] \<and> snd (dz_scan toBlob ref qs th cmds) = cmds @ map (ToBlob ''image/jpeg'') ps"
proof (induction qs arbitrary: th cmds)
  case Nil
  then show ?case by simp
next
  case (Cons q qs)
  show ?case
  proof (cases "exceeds toBlob ref q \<and> qs \<noteq> []")
    case True
    then obtain sz where sz: "toBlob q = Blob sz" "sz > ref"
      by (auto simp: exceeds_def split: blob_result.splits)
    from True Cons.IH [of q "cmds @ [ToBlob ''image/jpeg'' q]"]
    obtain ps where "snd (dz_scan toBlob ref qs q (cmds @ [ToBlob ''image/jpeg'' q]))
        = (cmds @ [ToBlob ''image/jpeg'' q]) @ map (ToBlob ''image/jpeg'') ps"
      by blast
    with sz have "snd (dz_scan toBlob ref (q # qs) th cmds)
        = cmds @ map (ToBlob ''image/jpeg'') (q # ps)"
      by simp
    then show ?thesis by blast
  next
    case False
    then have "snd (dz_scan toBlob ref (q # qs) th cmds) = cmds @ map (ToBlob ''image/jpeg'') [q]"
      by (auto simp: exceeds_def split: blob_result.splits)
    then show ?thesis by blast
  qed
qed

text \<open>
  C8, as the code has it. The white fill is tied to the file type \<^verbatim>\<open>image/png\<close>, not to
  the format having an alpha channel. When the original file is a PNG, the compression
  path, whenever it encodes, and the dead-zone search, whenever it probes, first create
  the canvas, fill the whole target rectangle with \<^verbatim>\<open>#FFFFFF\<close>, draw the image and only
  then call \<^verbatim>\<open>toBlob\<close>; the pixel data plays no part. For every other file type, WebP
  included, the image is drawn on the bare canvas and no fill is made. When nothing is
  encoded (quality 100 without resize, or a missing image) no command is issued.
\<close>

theorem flatten_only_png:
  assumes "originalFile s = Some f"
  shows "(file_type f = ''image/png'' \<longrightarrow>
            (fst (compressImage s) = EncodeRequested \<longrightarrow>
               snd (compressImage s)
                 = prepared_on_white (width (calculateCompressionSize s)) (height (calculateCompressionSize s))
                     @ [ToBlob ''image/jpeg'' (currentQuality s)])
          \<and> (searchable s \<longrightarrow>
               (\<exists>qs. qs \<noteq> [] \<and> snd (findDeadZoneThreshold toBlob s)
                 = prepared_on_white (width (calculateCompressionSize s)) (height (calculateCompressionSize s))
                     @ map (ToBlob ''image/jpeg'') qs)))
       \<and> (file_type f \<noteq> ''image/png'' \<longrightarrow>
            (fst (compressImage s) = EncodeRequested \<longrightarrow>
               snd (compressImage s)
                 = prepared_bare (width (calculateCompressionSize s)) (height (calculateCompressionSize s))
                     @ [ToBlob ''image/jpeg'' (currentQuality s)])
          \<and> (searchable s \<longrightarrow>
               (\<exists>qs. qs \<noteq> [] \<and> snd (findDeadZoneThreshold toBlob s)
                 = prepared_bare (width (calculateCompressionSize s)) (height (calculateCompressionSize s))
                     @ map (ToBlob ''image/jpeg'') qs)))
       \<and> (fst (compressImage s) \<noteq> EncodeRequested \<longrightarrow> snd (compressImage s) = [])
       \<and> (\<not> searchable s \<longrightarrow> snd (findDeadZoneThreshold toBlob s) = [])
       \<and> compressImage_rev2 False s = compressImage s
       \<and> compressImage_rev2 True s = (Skipped, [])"
proof -
  let ?w = "width (calculateCompressionSize s)" and ?h = "height (calculateCompressionSize s)"
  have tq: "testQualities \<noteq> []" by (simp add: testQualities_def)
  have enc: "snd (compressImage s) =
       [CreateCanvas ?w ?h] @ white_fill (originalFile s) ?w ?h
         @ [DrawImage (Num 0) (Num 0) ?w ?h, ToBlob ''image/jpeg'' (currentQuality s)]"
    if "fst (compressImage s) = EncodeRequested"
    using that by (auto simp: compressImage_def Let_def split: option.splits if_splits)
  have noenc: "snd (compressImage s) = []" if "fst (compressImage s) \<noteq> EncodeRequested"
    using that by (auto simp: compressImage_def Let_def split: option.splits if_splits)
  have dz: "\<exists>qs. qs \<noteq> [] \<and> snd (findDeadZoneThreshold toBlob s) =
       ([CreateCanvas ?w ?h] @ white_fill (originalFile s) ?w ?h @ [DrawImage (Num 0) (Num 0) ?w ?h])
         @ map (ToBlob ''image/jpeg'') qs"
    if "searchable s"
  proof -
    from dz_scan_cmds [OF tq, of toBlob "originalSize s" 101
        "[CreateCanvas ?w ?h] @ white_fill (originalFile s) ?w ?h @ [DrawImage (Num 0) (Num 0) ?w ?h]"]
    obtain ps where "ps \<noteq> []"
      "snd (dz_scan toBlob (originalSize s) testQualities 101
          ([CreateCanvas ?w ?h] @ white_fill (originalFile s) ?w ?h @ [DrawImage (Num 0) (Num 0) ?w ?h]))
        = ([CreateCanvas ?w ?h] @ white_fill (originalFile s) ?w ?h @ [DrawImage (Num 0) (Num 0) ?w ?h])
            @ map (ToBlob ''image/jpeg'') ps"
      by blast
    then show ?thesis
      by (intro exI [of _ ps]) (simp add: findDeadZoneThreshold_searchable [OF that] Let_def)
  qed
  have nodz: "snd (findDeadZoneThreshold toBlob s) = []" if "\<not> searchable s"
    using that by (auto simp: findDeadZoneThreshold_def searchable_def)
  have wf1: "white_fill (originalFile s) ?w ?h = [FillRect ''#FFFFFF'' (Num 0) (Num 0) ?w ?h]"
    if "file_type f = ''image/png''"
    using that assms by (simp add: white_fill_def)
  have wf2: "white_fill (originalFile s) ?w ?h = []" if "file_type f \<noteq> ''image/png''"
    using that assms by (simp add: white_fill_def)
  show ?thesis
    using enc noenc dz nodz wf1 wf2
    by (auto simp: prepared_on_white_def prepared_bare_def compressImage_rev2_def)
qed

theorem flatten_only_png_witness:
  "originalFile png_state = Some \<lparr>file_type = ''image/png'', file_size = 50000\<rparr>
   \<and> fst (compressImage png_state) = EncodeRequested
   \<and> searchable png_state
   \<and> snd (compressImage png_state) = prepared_on_white (Num 800) (Num 600) @ [ToBlob ''image/jpeg'' 80]
   \<and> snd (findDeadZoneThreshold all_under_toBlob png_state)
        = prepared_on_white (Num 800) (Num 600) @ [ToBlob ''image/jpeg'' 99]
   \<and> originalFile webp_state = Some \<lparr>file_type = ''image/webp'', file_size = 50000\<rparr>
   \<and> fst (compressImage webp_state) = EncodeRequested
   \<and> searchable webp_state
   \<and> snd (compressImage webp_state) = prepared_bare (Num 800) (Num 600) @ [ToBlob ''image/jpeg'' 80]"
proof -
  have sz: "calculateCompressionSize png_state = \<lparr>width = Num 800, height = Num 600\<rparr>"
    "calculateCompressionSize webp_state = \<lparr>width = Num 800, height = Num 600\<rparr>"
    by (rule scenario_sizes)+
  have f: "originalFile png_state = Some \<lparr>file_type = ''image/png'', file_size = 50000\<rparr>"
    "originalFile webp_state = Some \<lparr>file_type = ''image/webp'', file_size = 50000\<rparr>"
    by (simp_all add: png_state_def webp_state_def)
  have i: "originalImage png_state = Some \<lparr>naturalWidth = 800, naturalHeight = 600\<rparr>"
    "originalImage webp_state = Some \<lparr>naturalWidth = 800, naturalHeight = 600\<rparr>"
    "originalSize png_state = 50000"
    by (simp_all add: png_state_def webp_state_def)
  have q: "currentQuality png_state = 80" "currentQuality webp_state = 80"
    by (simp_all add: png_state_def webp_state_def)
  have e: "fst (compressImage png_state) = EncodeRequested"
    "fst (compressImage webp_state) = EncodeRequested"
    by (simp_all add: compressImage_def Let_def sz i q)
  have s: "searchable png_state" "searchable webp_state"
    by (simp_all add: searchable_def png_state_def webp_state_def)
  have dz: "snd (findDeadZoneThreshold all_under_toBlob png_state)
        = prepared_on_white (Num 800) (Num 600) @ [ToBlob ''image/jpeg'' 99]"
    by (simp add: findDeadZoneThreshold_def Let_def testQualities_def all_under_toBlob_def
        prepared_on_white_def sz i f white_fill_def)
  from flatten_only_png [OF f(1), of all_under_toBlob] flatten_only_png [OF f(2), of all_under_toBlob]
    f e s sz q dz
  show ?thesis by simp
qed

text \<open>A WebP original, whose format has an alpha channel: both paths encode without a fill.\<close>

theorem flatten_webp_counterexample:
  "supports_alpha (file_type \<lparr>file_type = ''image/webp'', file_size = 50000\<rparr>)
   \<and> originalFile webp_state = Some \<lparr>file_type = ''image/webp'', file_size = 50000\<rparr>
   \<and> compressImage webp_state
        = (EncodeRequested,
           [CreateCanvas (Num 800) (Num 600), DrawImage (Num 0) (Num 0) (Num 800) (Num 600),
            ToBlob ''image/jpeg'' 80])
   \<and> snd (findDeadZoneThreshold all_under_toBlob webp_state)
        = [CreateCanvas (Num 800) (Num 600), DrawImage (Num 0) (Num 0) (Num 800) (Num 600),
           ToBlob ''image/jpeg'' 99]"
proof -
  have sz: "calculateCompressionSize webp_state = \<lparr>width = Num 800, height = Num 600\<rparr>"
    by (rule scenario_sizes)
  have f: "originalFile webp_state = Some \<lparr>file_type = ''image/webp'', file_size = 50000\<rparr>"
    "originalImage webp_state = Some \<lparr>naturalWidth = 800, naturalHeight = 600\<rparr>"
    "currentQuality webp_state = 80" "originalSize webp_state = 50000"
    by (simp_all add: webp_state_def)
  have c: "compressImage webp_state
        = (EncodeRequested,
           [CreateCanvas (Num 800) (Num 600), DrawImage (Num 0) (Num 0) (Num 800) (Num 600),
            ToBlob ''image/jpeg'' 80])"
    by (simp add: compressImage_def Let_def sz f white_fill_def)
  have d: "snd (findDeadZoneThreshold all_under_toBlob webp_state)
        = [CreateCanvas (Num 800) (Num 600), DrawImage (Num 0) (Num 0) (Num 800) (Num 600),
           ToBlob ''image/jpeg'' 99]"
    by (simp add: findDeadZoneThreshold_def Let_def testQualities_def all_under_toBlob_def sz f
        white_fill_def)
  show ?thesis using c d f by (simp add: supports_alpha_def)
qed

subsection \<open>PSNR\<close>

lemma rd_in: "i < length d \<Longrightarrow> rd d i = Some (real (unat (d ! i)))"
  by (simp add: rd_def)

lemma u8_le_255: "real (unat (x :: u8)) \<le> 255"
proof -
  have "unat x < 2 ^ 8" using unsigned_less [of x] by simp
  then have "unat x \<le> 255" by simp
  then have "real (unat x) \<le> real 255" by (simp only: of_nat_le_iff)
  then show ?thesis by simp
qed

lemma psnr_loop_spec:
  assumes "length d1 = 4 * n" and "length d2 = 4 * n"
  shows "k \<le> n \<Longrightarrow> psnr_loop d1 d2 (4 * k) (Some m) c =
     (Some (m + sum_list (map (sq_err d1 d2) (included d1 [k..<n]))),
      c + length (included d1 [k..<n]))"
proof (induction "n - k" arbitrary: k m c)
  case 0
  then have "k = n" by simp
  then show ?case
    using assms by (subst psnr_loop.simps) (simp add: included_def)
next
  case (Suc j)
  then have kn: "k < n" and j: "j = n - Suc k" and k1: "Suc k \<le> n" by simp_all
  have up: "[k..<n] = k # [Suc k..<n]" using kn by (simp add: upt_conv_Cons)
  have idx: "4 * k < length d1" "4 * k + 1 < length d1" "4 * k + 2 < length d1" "4 * k + 3 < length d1"
    "4 * k < length d2" "4 * k + 1 < length d2" "4 * k + 2 < length d2"
    using kn assms by simp_all
  have step: "4 * k + 4 = 4 * Suc k" by simp
  show ?case
  proof (cases "chan d1 k 3 = 255")
    case True
    then have nlt: "\<not> num_lt (rd d1 (4 * k + 3)) 255"
      using idx by (simp add: num_lt_def rd_in chan_def)
    have "psnr_loop d1 d2 (4 * k) (Some m) c =
        psnr_loop d1 d2 (4 * Suc k) (Some (m + sq_err d1 d2 k)) (c + 1)"
      using idx nlt
      by (subst psnr_loop.simps)
        (simp add: step rd_in num_add_def num_sub_def num_sq_def sq_err_def chan_def add.assoc)
    also have "\<dots> = (Some (m + sq_err d1 d2 k + sum_list (map (sq_err d1 d2) (included d1 [Suc k..<n]))),
        c + 1 + length (included d1 [Suc k..<n]))"
      using Suc.hyps(1) [OF j k1] .
    finally show ?thesis using True by (simp add: up included_def add.assoc)
  next
    case False
    have "chan d1 k 3 \<le> 255" unfolding chan_def by (rule u8_le_255)
    with False have lt: "num_lt (rd d1 (4 * k + 3)) 255"
      using idx by (simp add: num_lt_def rd_in chan_def)
    have "psnr_loop d1 d2 (4 * k) (Some m) c = psnr_loop d1 d2 (4 * Suc k) (Some m) c"
      using idx lt by (subst psnr_loop.simps) (simp add: step)
    also have "\<dots> = (Some (m + sum_list (map (sq_err d1 d2) (included d1 [Suc k..<n]))),
        c + length (included d1 [Suc k..<n]))"
      using Suc.hyps(1) [OF j k1] .
    finally show ?thesis using False by (simp add: up included_def)
  qed
qed

lemma calculatePSNR_spec:
  assumes "same_size a b"
  shows "calculatePSNR a b = Some (psnr_spec a b)"
proof -
  let ?n = "iwidth a * iheight a"
  have l: "length (data a) = 4 * ?n" "length (data b) = 4 * ?n"
    using assms by (simp_all add: same_size_def well_formed_def)
  have "psnr_loop (data a) (data b) (4 * 0) (Some 0) 0 =
     (Some (0 + sum_list (map (sq_err (data a) (data b)) (included (data a) [0..<?n]))),
      0 + length (included (data a) [0..<?n]))"
    by (rule psnr_loop_spec [OF l]) simp
  then show ?thesis
    by (simp add: calculatePSNR_def psnr_spec_def Let_def)
qed

lemma sq_err_same: "sq_err d d k = 0"
  by (simp add: sq_err_def)

lemma sum_list_all_zero: "(\<And>x. x \<in> set xs \<Longrightarrow> f x = (0::real)) \<Longrightarrow> sum_list (map f xs) = 0"
  by (induction xs) auto

text \<open>
  C4. For two well-formed bitmaps of the same size the code returns what the
  specification describes (\<open>psnr_spec\<close>): the squared R, G, B differences are summed over
  the pixels whose reference alpha is 255 only, divided by three times their number; the
  result is 100 when no pixel is included or the mean is below \<open>1e-10\<close>, and
  \<open>max 0 (10 * log 10 (255\<^sup>2 / mse))\<close> otherwise. A bitmap compared with itself gives 100
  (whether or not it is fully opaque).
\<close>

theorem psnr_matches_spec:
  assumes "same_size a b"
  shows "calculatePSNR a b = Some (psnr_spec a b) \<and> calculatePSNR a a = Some 100"
proof -
  have aa: "same_size a a" using assms by (simp add: same_size_def)
  have "sum_list (map (sq_err (data a) (data a)) xs) = 0" for xs
    by (rule sum_list_all_zero) (simp add: sq_err_same)
  then have "psnr_spec a a = 100"
    by (simp add: psnr_spec_def Let_def)
  then show ?thesis
    using calculatePSNR_spec [OF assms] calculatePSNR_spec [OF aa] by simp
qed

lemma sq_err_int: "\<exists>z::nat. sq_err d1 d2 k = real z"
proof -
  have "(real a - real b) ^ 2 = real (nat ((int a - int b) ^ 2))" for a b :: nat
    by simp
  then have "sq_err d1 d2 k = real (nat ((int (unat (d1 ! (4 * k + 0))) - int (unat (d2 ! (4 * k + 0)))) ^ 2)
        + nat ((int (unat (d1 ! (4 * k + 1))) - int (unat (d2 ! (4 * k + 1)))) ^ 2)
        + nat ((int (unat (d1 ! (4 * k + 2))) - int (unat (d2 ! (4 * k + 2)))) ^ 2))"
    unfolding sq_err_def chan_def of_nat_add by presburger
  then show ?thesis by blast
qed

lemma sse_int: "\<exists>z::nat. sum_list (map (sq_err d1 d2) ks) = real z"
proof (induction ks)
  case Nil
  show ?case by (intro exI [of _ 0]) simp
next
  case (Cons k ks)
  then obtain z where z: "sum_list (map (sq_err d1 d2) ks) = real z" by blast
  obtain y where y: "sq_err d1 d2 k = real y" using sq_err_int by blast
  show ?case by (intro exI [of _ "y + z"]) (simp add: y z)
qed

lemma log10_mono: "0 < x \<Longrightarrow> x \<le> y \<Longrightarrow> log 10 x \<le> log 10 y"
  by (simp add: log_le_cancel_iff)

lemma log10_strict_mono: "0 < x \<Longrightarrow> x < y \<Longrightarrow> log 10 x < log 10 y"
  by (simp add: log_less_cancel_iff)

lemma log10_pow10: "log 10 ((10::real) ^ 10) = 10"
  using log_pow_cancel [of "10::real" 10] by simp

lemma included_length: "length (included d ks) \<le> length ks"
  by (simp add: included_def)

lemma psnr_spec_bounds:
  "0 \<le> psnr_spec a b
   \<and> psnr_spec a b \<le> 10 * log 10 (255 ^ 2 * 10 ^ 10)
   \<and> (iwidth a * iheight a \<le> 51262 \<longrightarrow> psnr_spec a b \<le> 100)"
proof -
  let ?inc = "included (data a) [0..<iwidth a * iheight a]"
  let ?sse = "sum_list (map (sq_err (data a) (data b)) ?inc)"
  let ?mse = "?sse / (3 * real (length ?inc))"
  have big: "(100::real) \<le> 10 * log 10 (255 ^ 2 * 10 ^ 10)"
  proof -
    have "log 10 ((10::real) ^ 10) \<le> log 10 (255 ^ 2 * 10 ^ 10)"
      by (rule log10_mono) simp_all
    then have "10 \<le> log 10 ((255::real) ^ 2 * 10 ^ 10)" by (simp only: log10_pow10)
    then show ?thesis by linarith
  qed
  show ?thesis
  proof (cases "?inc = [] \<or> ?mse < 1 / 10 ^ 10")
    case True
    then have "psnr_spec a b = 100" by (auto simp: psnr_spec_def Let_def)
    then show ?thesis using big by simp
  next
    case False
    then have ps: "psnr_spec a b = max 0 (10 * log 10 (255 ^ 2 / ?mse))"
      by (auto simp: psnr_spec_def Let_def)
    from False have ne: "?inc \<noteq> []" and nm: "\<not> ?mse < 1 / 10 ^ 10" by blast+
    from ne have len: "0 < length ?inc" by simp
    from nm have mse: "1 / 10 ^ 10 \<le> ?mse" by (simp only: not_less)
    then have mpos: "0 < ?mse" by (smt (verit) zero_less_divide_1_iff zero_less_power)
    have up: "255 ^ 2 / ?mse \<le> 255 ^ 2 * 10 ^ 10"
    proof -
      have "255 ^ 2 / ?mse \<le> 255 ^ 2 / (1 / 10 ^ 10)"
        using mse by (intro divide_left_mono) simp_all
      then show ?thesis by simp
    qed
    have qpos: "0 < 255 ^ 2 / ?mse" by (rule divide_pos_pos [OF _ mpos]) simp
    have b1: "10 * log 10 (255 ^ 2 / ?mse) \<le> 10 * log 10 (255 ^ 2 * 10 ^ 10)"
      using log10_mono [OF qpos up] by simp
    have b2: "10 * log 10 (255 ^ 2 / ?mse) \<le> 100" if small: "iwidth a * iheight a \<le> 51262"
    proof -
      obtain z :: nat where z: "?sse = real z" using sse_int by blast
      have "z \<noteq> 0"
      proof
        assume "z = 0"
        then have "?sse = 0" using z by simp
        with mpos show False by simp
      qed
      then have z1: "1 \<le> ?sse" using z by simp
      have "length ?inc \<le> 51262" using included_length [of "data a" "[0..<iwidth a * iheight a]"] small by simp
      then have "real (length ?inc) \<le> real 51262" by (rule of_nat_mono)
      then have l: "real (length ?inc) \<le> 51262" by simp
      have "1 / (3 * 51262) \<le> ?sse / (3 * real (length ?inc))"
        using z1 l len by (intro frac_le) simp_all
      then have "255 ^ 2 / ?mse \<le> 255 ^ 2 / (1 / (3 * 51262))"
        by (intro divide_left_mono) simp_all
      also have "\<dots> \<le> 10 ^ 10" by simp
      finally have "255 ^ 2 / ?mse \<le> 10 ^ 10" .
      then have "log 10 (255 ^ 2 / ?mse) \<le> log 10 ((10::real) ^ 10)"
        by (rule log10_mono [OF qpos])
      then have "log 10 (255 ^ 2 / ?mse) \<le> 10" by (simp only: log10_pow10)
      then show ?thesis by linarith
    qed
    show ?thesis using ps b1 b2 big by auto
  qed
qed

text \<open>
  C3, as the code has it. For two well-formed bitmaps of the same size the result is a
  number (not \<^verbatim>\<open>NaN\<close>: every read is in range, the divisor is positive and the logarithm
  is of a positive number) and it is non-negative. The value 100 is returned for a
  perfect or empty comparison but is not an upper bound: the code takes no minimum with
  100. The result is at most \<open>10 * log 10 (255\<^sup>2 * 10\<^sup>1\<^sup>0)\<close> (about 148.13), and it is at
  most 100 when the bitmaps have at most 51262 pixels.
\<close>

theorem psnr_range:
  assumes "same_size a b"
  shows "\<exists>r. calculatePSNR a b = Some r \<and> 0 \<le> r \<and> r \<le> 10 * log 10 (255 ^ 2 * 10 ^ 10)
            \<and> (iwidth a * iheight a \<le> 51262 \<longrightarrow> r \<le> 100)"
  using calculatePSNR_spec [OF assms] psnr_spec_bounds [of a b] by simp

lemma one_off_included:
  assumes "d1 = replicate (4 * n) (255 :: u8)"
  shows "included d1 [0..<n] = [0..<n]"
  unfolding included_def
  by (rule filter_True) (simp add: chan_def assms)

lemma one_off_nth: "0 < i \<Longrightarrow> i < 4 * n \<Longrightarrow> (254 # replicate (4 * n - 1) (255 :: u8)) ! i = 255"
  by (cases i) simp_all

lemma one_off_sse:
  assumes "0 < n" and "d1 = replicate (4 * n) (255 :: u8)" and "d2 = 254 # replicate (4 * n - 1) 255"
  shows "sum_list (map (sq_err d1 d2) [0..<n]) = 1"
proof -
  have up: "[0..<n] = 0 # [1..<n]" using assms(1) by (simp add: upt_conv_Cons)
  have f0: "sq_err d1 d2 0 = 1"
    using assms by (simp add: sq_err_def chan_def nth_Cons')
  have "sq_err d1 d2 k = 0" if "k \<in> set [1..<n]" for k
  proof -
    from that have "0 < 4 * k + 0" "4 * k + 0 < 4 * n" "0 < 4 * k + 1" "4 * k + 1 < 4 * n"
      "0 < 4 * k + 2" "4 * k + 2 < 4 * n"
      by simp_all
    then show ?thesis
      unfolding sq_err_def chan_def assms(2,3) by (simp only: one_off_nth nth_replicate) simp
  qed
  then have "sum_list (map (sq_err d1 d2) [1..<n]) = 0"
    by (rule sum_list_all_zero)
  then show ?thesis using f0 by (simp add: up)
qed

text \<open>Two opaque 300 by 200 bitmaps that differ by 1 in a single channel of a single pixel:
  the mean squared error is 1/180000 and the PSNR is \<open>10 * log 10 11704500000\<close>, above 100.\<close>

theorem psnr_above_100_counterexample:
  "same_size white_300x200 off_by_one_300x200
   \<and> calculatePSNR white_300x200 off_by_one_300x200 = Some (10 * log 10 11704500000)
   \<and> 100 < 10 * log 10 (11704500000 :: real)"
proof -
  have ss: "same_size white_300x200 off_by_one_300x200"
    by (simp add: same_size_def well_formed_def white_300x200_def off_by_one_300x200_def)
  have d: "data white_300x200 = replicate (4 * 60000) 255"
    "data off_by_one_300x200 = 254 # replicate (4 * 60000 - 1) 255"
    "iwidth white_300x200 * iheight white_300x200 = 60000"
    by (simp_all add: white_300x200_def off_by_one_300x200_def)
  have inc: "included (data white_300x200) [0..<60000] = [0..<60000]"
    by (rule one_off_included [OF d(1)])
  have sse: "sum_list (map (sq_err (data white_300x200) (data off_by_one_300x200)) [0..<60000]) = 1"
    by (rule one_off_sse [OF _ d(1) d(2)]) simp
  have "psnr_spec white_300x200 off_by_one_300x200 = max 0 (10 * log 10 11704500000)"
    unfolding psnr_spec_def d(3) Let_def inc sse by simp
  moreover have gt: "100 < 10 * log 10 (11704500000 :: real)"
  proof -
    have "log 10 ((10::real) ^ 10) < log 10 11704500000"
      by (rule log10_strict_mono) simp_all
    then have "10 < log 10 (11704500000 :: real)" by (simp only: log10_pow10)
    then show ?thesis by linarith
  qed
  ultimately show ?thesis
    using calculatePSNR_spec [OF ss] ss by simp
qed

lemma pixel_ab_spec: "psnr_spec pixel_a pixel_b = 10 * log 10 (195075 / 4)"
proof -
  have "(0::real) \<le> log 10 (195075 / 4)"
    by (subst zero_le_log_cancel_iff) simp_all
  then show ?thesis
    by (simp add: psnr_spec_def pixel_a_def pixel_b_def included_def chan_def sq_err_def Let_def)
qed

theorem psnr_range_witness:
  "same_size pixel_a pixel_b
   \<and> iwidth pixel_a * iheight pixel_a \<le> 51262
   \<and> calculatePSNR pixel_a pixel_b = Some (10 * log 10 (195075 / 4))
   \<and> 0 \<le> 10 * log 10 (195075 / 4 :: real)
   \<and> 10 * log 10 (195075 / 4 :: real) \<le> 100"
proof -
  have ss: "same_size pixel_a pixel_b"
    by (simp add: same_size_def well_formed_def pixel_a_def pixel_b_def)
  have sm: "iwidth pixel_a * iheight pixel_a \<le> 51262"
    by (simp add: pixel_a_def)
  have v: "calculatePSNR pixel_a pixel_b = Some (10 * log 10 (195075 / 4))"
    using calculatePSNR_spec [OF ss] pixel_ab_spec by simp
  from psnr_range [OF ss] sm v ss show ?thesis by auto
qed

theorem psnr_matches_spec_witness:
  "same_size pixel_a pixel_b
   \<and> calculatePSNR pixel_a pixel_b = Some (psnr_spec pixel_a pixel_b)
   \<and> psnr_spec pixel_a pixel_b = 10 * log 10 (195075 / 4)
   \<and> calculatePSNR pixel_a pixel_a = Some 100"
proof -
  have ss: "same_size pixel_a pixel_b"
    by (simp add: same_size_def well_formed_def pixel_a_def pixel_b_def)
  from psnr_matches_spec [OF ss] ss pixel_ab_spec show ?thesis by simp
qed

subsection \<open>Heat map\<close>

lemma math_round_range:
  "0 \<le> v \<Longrightarrow> v < 255 + 1 / 2 \<Longrightarrow> 0 \<le> math_round v \<and> math_round v \<le> 255"
  unfolding math_round_def by linarith

lemma convex_255:
  fixes a b t :: real
  assumes "0 \<le> t" "t \<le> 1" "0 \<le> a" "a \<le> 255" "0 \<le> b" "b \<le> 255"
  shows "a * (1 - t) + b * t \<le> 255"
proof -
  have "a * (1 - t) \<le> 255 * (1 - t)" and "b * t \<le> 255 * t"
    using assms by (intro mult_right_mono; simp)+
  then have "a * (1 - t) + b * t \<le> 255 * (1 - t) + 255 * t" by (rule add_mono)
  also have "\<dots> = 255" by (simp add: algebra_simps)
  finally show ?thesis .
qed

text \<open>The error of one rounding of a number of magnitude at most \<open>c\<close>.\<close>

lemma binary64_within:
  assumes "\<bar>x\<bar> \<le> c"
  shows "\<bar>binary64 x - x\<bar> \<le> (c + 1) / 2 ^ 53"
proof -
  have "\<bar>binary64 x - x\<bar> \<le> \<bar>x\<bar> / 2 ^ 53 + 1 / 2 ^ 1075" by (rule binary64_error)
  also have "\<dots> \<le> c / 2 ^ 53 + 1 / 2 ^ 53"
    using assms by (intro add_mono divide_right_mono) simp_all
  also have "\<dots> = (c + 1) / 2 ^ 53" by (simp add: add_divide_distrib)
  finally show ?thesis .
qed

text \<open>
  A component of the ramp colour before \<^verbatim>\<open>Math.round\<close>. In exact arithmetic it is a
  convex combination of two table entries, hence at most 255; the four roundings add at
  most \<open>1533 / 2^53\<close>, so it stays below 255.5.
\<close>

lemma mix_255:
  fixes a b t :: real
  assumes "0 \<le> t" "t \<le> 1" "0 \<le> a" "a \<le> 255" "0 \<le> b" "b \<le> 255"
  shows "0 \<le> binary64 (binary64 (a * binary64 (1 - t)) + binary64 (b * t))
       \<and> binary64 (binary64 (a * binary64 (1 - t)) + binary64 (b * t)) < 255 + 1 / 2"
proof -
  define u :: real where "u = 1 / 2 ^ 53"
  define s where "s = binary64 (1 - t)"
  define A where "A = binary64 (a * s)"
  define B where "B = binary64 (b * t)"
  have u0: "0 \<le> u" by (simp add: u_def)
  have s0: "0 \<le> s" unfolding s_def using assms(2) by (intro binary64_nonneg) simp
  have "s \<le> binary64 1" unfolding s_def using assms(1) by (intro binary64_mono) simp
  then have s1: "s \<le> 1" by (simp add: binary64_one)
  have "\<bar>1 - t\<bar> \<le> 1" using assms(1,2) by simp
  from binary64_within [OF this] have "\<bar>s - (1 - t)\<bar> \<le> 2 * u" unfolding s_def u_def by simp
  then have se: "s \<le> (1 - t) + 2 * u" by linarith
  have as0: "0 \<le> a * s" using assms(3) s0 by simp
  have "a * s \<le> 255 * 1" using assms(3,4) s0 s1 by (intro mult_mono) simp_all
  then have as1: "a * s \<le> 255" by simp
  have bt0: "0 \<le> b * t" using assms(1,5) by simp
  have "b * t \<le> 255 * 1" using assms(1,2,5,6) by (intro mult_mono) simp_all
  then have bt1: "b * t \<le> 255" by simp
  have A0: "0 \<le> A" unfolding A_def using as0 by (rule binary64_nonneg)
  have B0: "0 \<le> B" unfolding B_def using bt0 by (rule binary64_nonneg)
  have "\<bar>a * s\<bar> \<le> 255" using as0 as1 by simp
  from binary64_within [OF this] have "\<bar>A - a * s\<bar> \<le> 256 * u" unfolding A_def u_def by simp
  then have Ae: "A \<le> a * s + 256 * u" by linarith
  have "\<bar>b * t\<bar> \<le> 255" using bt0 bt1 by simp
  from binary64_within [OF this] have "\<bar>B - b * t\<bar> \<le> 256 * u" unfolding B_def u_def by simp
  then have Be: "B \<le> b * t + 256 * u" by linarith
  have "a * s \<le> a * ((1 - t) + 2 * u)" using se assms(3) by (rule mult_left_mono)
  also have "\<dots> = a * (1 - t) + a * (2 * u)" by (simp add: algebra_simps)
  also have "\<dots> \<le> a * (1 - t) + 255 * (2 * u)" using assms(4) u0 by (simp add: mult_right_mono)
  finally have ase: "a * s \<le> a * (1 - t) + 510 * u" by simp
  have cv: "a * (1 - t) + b * t \<le> 255" by (rule convex_255 [OF assms])
  have u_small: "1533 * u < 1 / 4" by (simp add: u_def)
  have AB0: "0 \<le> A + B" using A0 B0 by simp
  have AB1: "A + B \<le> 255 + 1022 * u" using Ae Be ase cv by linarith
  then have "\<bar>A + B\<bar> \<le> 510" using AB0 u_small u0 by linarith
  from binary64_within [OF this] have "\<bar>binary64 (A + B) - (A + B)\<bar> \<le> 511 * u"
    unfolding u_def by simp
  then have "binary64 (A + B) \<le> A + B + 511 * u" by linarith
  then have up: "binary64 (A + B) < 255 + 1 / 2" using AB1 u_small u0 by linarith
  have "0 \<le> binary64 (A + B)" using AB0 by (rule binary64_nonneg)
  with up show ?thesis unfolding A_def B_def s_def by simp
qed

lemma color_at_cases:
  "0 \<le> i \<Longrightarrow> i \<le> 4 \<Longrightarrow> color_at i = Some (colors ! nat i)"
  by (simp add: color_at_def colors_def)

lemma colors_range:
  assumes "0 \<le> i" "i \<le> 4"
  shows "0 \<le> rgb_r (colors ! nat i) \<and> rgb_r (colors ! nat i) \<le> 255
       \<and> 0 \<le> rgb_g (colors ! nat i) \<and> rgb_g (colors ! nat i) \<le> 255
       \<and> 0 \<le> rgb_b (colors ! nat i) \<and> rgb_b (colors ! nat i) \<le> 255"
proof -
  from assms have "i = 0 \<or> i = 1 \<or> i = 2 \<or> i = 3 \<or> i = 4" by linarith
  then show ?thesis by (auto simp: colors_def)
qed

lemma binary64_4: "binary64 4 = 4"
  using binary64_of_nat [of 4] by simp

lemma binary64_255: "binary64 255 = 255"
  using binary64_of_nat [of 255] by simp

lemma ramp_index:
  fixes x :: real
  defines "p \<equiv> binary64 (max 0 (min 1 x) * real (length colors - 1))"
  shows "0 \<le> \<lfloor>p\<rfloor> \<and> \<lfloor>p\<rfloor> \<le> 4 \<and> 0 \<le> min (\<lfloor>p\<rfloor> + 1) (int (length colors) - 1)
       \<and> min (\<lfloor>p\<rfloor> + 1) (int (length colors) - 1) \<le> 4
       \<and> 0 \<le> binary64 (p - of_int \<lfloor>p\<rfloor>) \<and> binary64 (p - of_int \<lfloor>p\<rfloor>) \<le> 1"
proof -
  have q: "0 \<le> max 0 (min 1 x) * real (length colors - 1)"
    "max 0 (min 1 x) * real (length colors - 1) \<le> 4"
    by (simp_all add: colors_def)
  have "0 \<le> p" unfolding p_def using q(1) by (rule binary64_nonneg)
  moreover have "p \<le> binary64 4" unfolding p_def using q(2) by (rule binary64_mono)
  ultimately have p: "0 \<le> p" "p \<le> 4" by (simp_all add: binary64_4)
  then have f: "0 \<le> \<lfloor>p\<rfloor>" "\<lfloor>p\<rfloor> \<le> 4" by (simp_all add: le_floor_iff floor_le_iff)
  have d: "0 \<le> p - of_int \<lfloor>p\<rfloor>" "p - of_int \<lfloor>p\<rfloor> \<le> 1" by linarith+
  have "0 \<le> binary64 (p - of_int \<lfloor>p\<rfloor>)" using d(1) by (rule binary64_nonneg)
  moreover have "binary64 (p - of_int \<lfloor>p\<rfloor>) \<le> binary64 1" using d(2) by (rule binary64_mono)
  ultimately show ?thesis using f by (simp add: colors_def binary64_one)
qed

lemma getHeatMapColor_eq:
  fixes x :: real
  defines "p \<equiv> binary64 (max 0 (min 1 x) * real (length colors - 1))"
  defines "ci \<equiv> colors ! nat \<lfloor>p\<rfloor>"
  defines "cj \<equiv> colors ! nat (min (\<lfloor>p\<rfloor> + 1) (int (length colors) - 1))"
  defines "t \<equiv> binary64 (p - of_int \<lfloor>p\<rfloor>)"
  shows "getHeatMapColor (Some x) =
      Inr \<lparr>rgb_r = math_round (binary64 (binary64 (of_int (rgb_r ci) * binary64 (1 - t))
                                        + binary64 (of_int (rgb_r cj) * t))),
           rgb_g = math_round (binary64 (binary64 (of_int (rgb_g ci) * binary64 (1 - t))
                                        + binary64 (of_int (rgb_g cj) * t))),
           rgb_b = math_round (binary64 (binary64 (of_int (rgb_b ci) * binary64 (1 - t))
                                        + binary64 (of_int (rgb_b cj) * t)))\<rparr>"
proof -
  from ramp_index [of x] have
    "color_at \<lfloor>p\<rfloor> = Some ci"
    "color_at (min (\<lfloor>p\<rfloor> + 1) (int (length colors) - 1)) = Some cj"
    unfolding p_def ci_def cj_def by (simp_all add: color_at_cases)
  then show ?thesis
    by (simp add: getHeatMapColor_def Let_def p_def t_def)
qed

text \<open>The same, for evaluation at a given intensity step by step.\<close>

lemma getHeatMapColor_at:
  assumes "binary64 (max 0 (min 1 x) * 4) = p" and "\<lfloor>p\<rfloor> = i" and "min (i + 1) 4 = j"
    and "binary64 (p - of_int i) = t" and "binary64 (1 - t) = s"
  shows "getHeatMapColor (Some x) =
      Inr \<lparr>rgb_r = math_round (binary64 (binary64 (of_int (rgb_r (colors ! nat i)) * s)
                                        + binary64 (of_int (rgb_r (colors ! nat j)) * t))),
           rgb_g = math_round (binary64 (binary64 (of_int (rgb_g (colors ! nat i)) * s)
                                        + binary64 (of_int (rgb_g (colors ! nat j)) * t))),
           rgb_b = math_round (binary64 (binary64 (of_int (rgb_b (colors ! nat i)) * s)
                                        + binary64 (of_int (rgb_b (colors ! nat j)) * t)))\<rparr>"
proof -
  have l: "real (length colors - 1) = 4" "int (length colors) - 1 = 4" by (simp_all add: colors_def)
  show ?thesis using getHeatMapColor_eq [of x] unfolding l assms .
qed

lemma getHeatMapColor_ok:
  "\<exists>c. getHeatMapColor (Some x) = Inr c
       \<and> 0 \<le> rgb_r c \<and> rgb_r c \<le> 255
       \<and> 0 \<le> rgb_g c \<and> rgb_g c \<le> 255
       \<and> 0 \<le> rgb_b c \<and> rgb_b c \<le> 255"
proof -
  define p where "p = binary64 (max 0 (min 1 x) * real (length colors - 1))"
  define i where "i = \<lfloor>p\<rfloor>"
  define j where "j = min (i + 1) (int (length colors) - 1)"
  define t where "t = binary64 (p - of_int i)"
  define ci where "ci = colors ! nat i"
  define cj where "cj = colors ! nat j"
  define c where "c =
          \<lparr>rgb_r = math_round (binary64 (binary64 (of_int (rgb_r ci) * binary64 (1 - t))
                                        + binary64 (of_int (rgb_r cj) * t))),
           rgb_g = math_round (binary64 (binary64 (of_int (rgb_g ci) * binary64 (1 - t))
                                        + binary64 (of_int (rgb_g cj) * t))),
           rgb_b = math_round (binary64 (binary64 (of_int (rgb_b ci) * binary64 (1 - t))
                                        + binary64 (of_int (rgb_b cj) * t)))\<rparr>"
  have eq: "getHeatMapColor (Some x) = Inr c"
    using getHeatMapColor_eq [of x] unfolding c_def ci_def cj_def t_def j_def i_def p_def .
  have ri: "0 \<le> i" "i \<le> 4" "0 \<le> j" "j \<le> 4" "0 \<le> t" "t \<le> 1"
    using ramp_index [of x] unfolding i_def j_def t_def p_def by simp_all
  note ci_r = colors_range [OF ri(1,2), folded ci_def]
  note cj_r = colors_range [OF ri(3,4), folded cj_def]
  have r: "0 \<le> rgb_r c \<and> rgb_r c \<le> 255"
    unfolding c_def using mix_255 [OF ri(5,6), of "of_int (rgb_r ci)" "of_int (rgb_r cj)"] ci_r cj_r
    by (simp add: math_round_range)
  have g: "0 \<le> rgb_g c \<and> rgb_g c \<le> 255"
    unfolding c_def using mix_255 [OF ri(5,6), of "of_int (rgb_g ci)" "of_int (rgb_g cj)"] ci_r cj_r
    by (simp add: math_round_range)
  have b: "0 \<le> rgb_b c \<and> rgb_b c \<le> 255"
    unfolding c_def using mix_255 [OF ri(5,6), of "of_int (rgb_b ci)" "of_int (rgb_b cj)"] ci_r cj_r
    by (simp add: math_round_range)
  from eq r g b show ?thesis by blast
qed

lemma getHeatMapColor_low: "x \<le> 0 \<Longrightarrow> getHeatMapColor (Some x) = Inr \<lparr>rgb_r = 0, rgb_g = 0, rgb_b = 255\<rparr>"
  by (simp add: getHeatMapColor_def Let_def color_at_def colors_def math_round_def
      binary64_zero binary64_one binary64_255)

lemma getHeatMapColor_high: "1 \<le> x \<Longrightarrow> getHeatMapColor (Some x) = Inr \<lparr>rgb_r = 255, rgb_g = 0, rgb_b = 0\<rparr>"
  by (simp add: getHeatMapColor_def Let_def color_at_def colors_def math_round_def
      binary64_zero binary64_one binary64_255 binary64_4)

lemma ramp_at_0075:
  "getHeatMapColor (Some (binary64 (3 / 40))) = Inr \<lparr>rgb_r = 0, rgb_g = 77, rgb_b = 255\<rparr>"
proof -
  have x: "binary64 (3 / 40) = 5404319552844595 / 72057594037927936" by (simp add: b64)
  have p: "binary64 (max 0 (min 1 (5404319552844595 / 72057594037927936)) * 4)
      = 5404319552844595 / 18014398509481984"
    by (simp add: b64)
  have i: "\<lfloor>5404319552844595 / 18014398509481984 :: real\<rfloor> = 0" by simp
  have j: "min ((0::int) + 1) 4 = 1" by simp
  have t: "binary64 (5404319552844595 / 18014398509481984 - of_int 0)
      = 5404319552844595 / 18014398509481984"
    by (simp add: b64)
  have s: "binary64 (1 - 5404319552844595 / 18014398509481984)
      = 3152519739159347 / 4503599627370496"
    by (simp add: b64)
  show ?thesis
    unfolding x getHeatMapColor_at [OF p i j t s]
    by (simp add: colors_def math_round_def b64)
qed

lemma ramp_at_7_51:
  "getHeatMapColor (Some (2472564501301449 / 18014398509481984))
      = Inr \<lparr>rgb_r = 0, rgb_g = 140, rgb_b = 255\<rparr>"
proof -
  have p: "binary64 (max 0 (min 1 (2472564501301449 / 18014398509481984)) * 4)
      = 2472564501301449 / 4503599627370496"
    by (simp add: b64)
  have i: "\<lfloor>2472564501301449 / 4503599627370496 :: real\<rfloor> = 0" by simp
  have j: "min ((0::int) + 1) 4 = 1" by simp
  have t: "binary64 (2472564501301449 / 4503599627370496 - of_int 0)
      = 2472564501301449 / 4503599627370496"
    by (simp add: b64)
  have s: "binary64 (1 - 2472564501301449 / 4503599627370496)
      = 2031035126069047 / 4503599627370496"
    by (simp add: b64)
  show ?thesis
    unfolding getHeatMapColor_at [OF p i j t s]
    by (simp add: colors_def math_round_def b64)
qed

text \<open>
  C10. For every real intensity (every double among them) the colour ramp, computing in
  binary64, returns a colour: after the clamp to [0,1] the rounded position \<open>p\<close> lies in
  [0,4], both table indices \<open>\<lfloor>p\<rfloor>\<close> and \<open>min (\<lfloor>p\<rfloor> + 1) 4\<close> lie in the table (at
  intensity 1 both are the last index, 4), so no entry is \<^verbatim>\<open>undefined\<close> and no
  \<^verbatim>\<open>TypeError\<close> arises. Each component is an integer in [0,255]: the roundings of the
  interpolation cannot carry it to 255.5. An intensity at or below 0 gives blue (0,0,255),
  one at or above 1 gives red (255,0,0).
\<close>

theorem heat_colour_total:
  "\<exists>c. getHeatMapColor (Some x) = Inr c
       \<and> 0 \<le> rgb_r c \<and> rgb_r c \<le> 255
       \<and> 0 \<le> rgb_g c \<and> rgb_g c \<le> 255
       \<and> 0 \<le> rgb_b c \<and> rgb_b c \<le> 255
       \<and> (x \<le> 0 \<longrightarrow> c = \<lparr>rgb_r = 0, rgb_g = 0, rgb_b = 255\<rparr>)
       \<and> (1 \<le> x \<longrightarrow> c = \<lparr>rgb_r = 255, rgb_g = 0, rgb_b = 0\<rparr>)"
proof -
  from getHeatMapColor_ok [of x] obtain c where c: "getHeatMapColor (Some x) = Inr c"
    "0 \<le> rgb_r c" "rgb_r c \<le> 255" "0 \<le> rgb_g c" "rgb_g c \<le> 255" "0 \<le> rgb_b c" "rgb_b c \<le> 255"
    by blast
  have "c = \<lparr>rgb_r = 0, rgb_g = 0, rgb_b = 255\<rparr>" if "x \<le> 0"
    using getHeatMapColor_low [OF that] c(1) by simp
  moreover have "c = \<lparr>rgb_r = 255, rgb_g = 0, rgb_b = 0\<rparr>" if "1 \<le> x"
    using getHeatMapColor_high [OF that] c(1) by simp
  ultimately show ?thesis using c by blast
qed

text \<open>The ends of the ramp, and the double nearest to 0.075, where the rounding decides the
  green component: the rounded product \<open>255 * t\<close> is exactly 76.5 and gives 77, the exact
  one lies below 76.5 and would give 76.\<close>

theorem heat_colour_total_witness:
  "getHeatMapColor (Some 0) = Inr \<lparr>rgb_r = 0, rgb_g = 0, rgb_b = 255\<rparr>
   \<and> getHeatMapColor (Some (- 3)) = Inr \<lparr>rgb_r = 0, rgb_g = 0, rgb_b = 255\<rparr>
   \<and> getHeatMapColor (Some 1) = Inr \<lparr>rgb_r = 255, rgb_g = 0, rgb_b = 0\<rparr>
   \<and> getHeatMapColor (Some 7) = Inr \<lparr>rgb_r = 255, rgb_g = 0, rgb_b = 0\<rparr>
   \<and> getHeatMapColor (Some (binary64 (3 / 40))) = Inr \<lparr>rgb_r = 0, rgb_g = 77, rgb_b = 255\<rparr>"
proof -
  have m: "getHeatMapColor (Some (binary64 (3 / 40))) = Inr \<lparr>rgb_r = 0, rgb_g = 77, rgb_b = 255\<rparr>"
    by (rule ramp_at_0075)
  from heat_colour_total [of 0] heat_colour_total [of "- 3"] heat_colour_total [of 1]
    heat_colour_total [of 7] m
  show ?thesis by auto
qed

lemma abs_diff_255: "\<bar>real (unat (x :: u8)) - real (unat (y :: u8))\<bar> \<le> 255"
proof -
  have "0 \<le> real (unat x)" and "0 \<le> real (unat y)" by (rule of_nat_0_le_iff)+
  with u8_le_255 [of x] u8_le_255 [of y] show ?thesis by linarith
qed

lemma intensity_spec_range: "0 \<le> intensity_spec d1 d2 k \<and> intensity_spec d1 d2 k \<le> 1"
proof -
  let ?s = "\<bar>chan d1 k 0 - chan d2 k 0\<bar> + \<bar>chan d1 k 1 - chan d2 k 1\<bar> + \<bar>chan d1 k 2 - chan d2 k 2\<bar>"
  have "\<bar>chan d1 k 0 - chan d2 k 0\<bar> \<le> 255" "\<bar>chan d1 k 1 - chan d2 k 1\<bar> \<le> 255"
    "\<bar>chan d1 k 2 - chan d2 k 2\<bar> \<le> 255"
    unfolding chan_def by (rule abs_diff_255)+
  then have s: "0 \<le> ?s / 3" "?s / 3 \<le> 255" by simp_all
  have m0: "0 \<le> binary64 (?s / 3)" using s(1) by (rule binary64_nonneg)
  have "binary64 (?s / 3) \<le> binary64 255" using s(2) by (rule binary64_mono)
  then have m1: "binary64 (?s / 3) \<le> 255" by (simp add: binary64_255)
  have q: "0 \<le> binary64 (?s / 3) / 255" "binary64 (?s / 3) / 255 \<le> 1" using m0 m1 by simp_all
  have "0 \<le> binary64 (binary64 (?s / 3) / 255)" using q(1) by (rule binary64_nonneg)
  moreover have "binary64 (binary64 (?s / 3) / 255) \<le> binary64 1" using q(2) by (rule binary64_mono)
  ultimately show ?thesis unfolding intensity_spec_def by (simp add: binary64_one)
qed

lemma pixel_intensity_spec:
  assumes "4 * k + 3 < length d1" and "4 * k + 3 < length d2"
  shows "pixel_intensity d1 d2 (4 * k) = Some (intensity_spec d1 d2 k)"
proof -
  have i: "4 * k < length d1" "4 * k + 1 < length d1" "4 * k + 2 < length d1"
    "4 * k < length d2" "4 * k + 1 < length d2" "4 * k + 2 < length d2"
    using assms by simp_all
  have m: "min 1 (intensity_spec d1 d2 k) = intensity_spec d1 d2 k"
    using intensity_spec_range [of d1 d2 k] by simp
  have "pixel_intensity d1 d2 (4 * k) = Some (min 1 (intensity_spec d1 d2 k))"
    using i
    by (simp add: pixel_intensity_def Let_def rd_in num_div_def num_add_def num_abs_def num_sub_def
        num_min_def intensity_spec_def chan_def)
  then show ?thesis by (simp only: m)
qed

lemma toUint8Clamp_byte: "0 \<le> z \<Longrightarrow> z \<le> 255 \<Longrightarrow> toUint8Clamp (Some (of_int z)) = word_of_int z"
  by (auto simp: toUint8Clamp_def Let_def)

lemma set4_ok:
  "i + 4 \<le> length hm \<Longrightarrow>
     set4 hm [a, b, c, d] i =
       Inr (take i hm @ [toUint8Clamp a, toUint8Clamp b, toUint8Clamp c, toUint8Clamp d] @ drop (i + 4) hm)"
proof -
  assume le: "i + 4 \<le> length hm"
  have l: "length [a, b, c, d] = 4" by simp
  have m: "map toUint8Clamp [a, b, c, d] = [toUint8Clamp a, toUint8Clamp b, toUint8Clamp c, toUint8Clamp d]"
    by simp
  have "\<not> i + 4 > length hm" using le by simp
  then show ?thesis unfolding set4_def l m by (simp only: if_False)
qed

lemma toUint8Clamp_zero: "toUint8Clamp (Some 0) = 0"
  by (simp add: toUint8Clamp_def)

lemma heat_loop_spec:
  assumes "length d1 = 4 * n" and "length d2 = 4 * n"
  shows "k \<le> n \<Longrightarrow> length hm = 4 * n \<Longrightarrow>
     heat_loop d1 d2 (4 * k) hm = Inr (take (4 * k) hm @ concat (map (heat_pixel d1 d2) [k..<n]))"
proof (induction "n - k" arbitrary: k hm)
  case 0
  then have "k = n" by simp
  then show ?case
    using assms "0.prems" by (subst heat_loop.simps) simp
next
  case (Suc j)
  then have kn: "k < n" and j: "j = n - Suc k" and k1: "Suc k \<le> n" by simp_all
  have up: "[k..<n] = k # [Suc k..<n]" using kn by (simp add: upt_conv_Cons)
  have idx: "4 * k < length d1" "4 * k + 3 < length d1" "4 * k + 3 < length d2"
    "4 * k + 4 \<le> length hm"
    using kn assms Suc.prems by simp_all
  have step: "4 * k + 4 = 4 * Suc k" by simp
  have rest: "heat_loop d1 d2 (4 * Suc k) (take (4 * k) hm @ px @ drop (4 * k + 4) hm)
      = Inr (take (4 * k) hm @ px @ concat (map (heat_pixel d1 d2) [Suc k..<n]))"
    if "length px = 4" for px
  proof -
    have len: "length (take (4 * k) hm @ px @ drop (4 * k + 4) hm) = 4 * n"
      using that idx Suc.prems by simp
    have tk: "take (4 * Suc k) (take (4 * k) hm @ px @ drop (4 * k + 4) hm) = take (4 * k) hm @ px"
      using that idx by simp
    show ?thesis
      using Suc.hyps(1) [OF j k1 len] by (simp only: tk append_assoc)
  qed
  show ?case
  proof (cases "chan d1 k 3 = 255")
    case True
    then have nlt: "\<not> num_lt (rd d1 (4 * k + 3)) 255"
      using idx by (simp add: num_lt_def rd_in chan_def)
    from getHeatMapColor_ok [of "intensity_spec d1 d2 k"] obtain c where
      c: "getHeatMapColor (Some (intensity_spec d1 d2 k)) = Inr c"
      "0 \<le> rgb_r c" "rgb_r c \<le> 255" "0 \<le> rgb_g c" "rgb_g c \<le> 255" "0 \<le> rgb_b c" "rgb_b c \<le> 255"
      by blast
    let ?px = "[word_of_int (rgb_r c), word_of_int (rgb_g c), word_of_int (rgb_b c),
                toUint8Clamp (Some (max 30 (binary64 (intensity_spec d1 d2 k * 225))))]"
    have hp: "heat_pixel d1 d2 k = ?px"
      using True c(1) by (simp add: heat_pixel_def)
    have "heat_loop d1 d2 (4 * k) hm =
        heat_loop d1 d2 (4 * Suc k) (take (4 * k) hm @ ?px @ drop (4 * k + 4) hm)"
      using idx nlt c
      by (subst heat_loop.simps)
        (simp add: step pixel_intensity_spec Let_def set4_ok num_max_def num_mul_def
          toUint8Clamp_byte)
    also have "\<dots> = Inr (take (4 * k) hm @ ?px @ concat (map (heat_pixel d1 d2) [Suc k..<n]))"
      by (rule rest) simp
    finally show ?thesis by (simp add: up hp)
  next
    case False
    have "chan d1 k 3 \<le> 255" unfolding chan_def by (rule u8_le_255)
    with False have lt: "num_lt (rd d1 (4 * k + 3)) 255"
      using idx by (simp add: num_lt_def rd_in chan_def)
    have hp: "heat_pixel d1 d2 k = [0, 0, 0, 0]"
      using False by (simp add: heat_pixel_def)
    have "heat_loop d1 d2 (4 * k) hm =
        heat_loop d1 d2 (4 * Suc k) (take (4 * k) hm @ [0, 0, 0, 0] @ drop (4 * k + 4) hm)"
      using idx lt
      by (subst heat_loop.simps) (simp add: step set4_ok toUint8Clamp_zero)
    also have "\<dots> = Inr (take (4 * k) hm @ [0, 0, 0, 0] @ concat (map (heat_pixel d1 d2) [Suc k..<n]))"
      by (rule rest) simp
    finally show ?thesis by (simp add: up hp)
  qed
qed

lemma heat_pixel_length: "length (heat_pixel d1 d2 k) = 4"
  by (auto simp: heat_pixel_def split: sum.splits)

lemma concat_blocks_length:
  "(\<And>k. length (f k) = 4) \<Longrightarrow> length (concat (map f [0..<n])) = 4 * n"
  by (induction n) simp_all

lemma concat_blocks_nth:
  assumes "\<And>k. length (f k) = 4" and "k < n"
  shows "take 4 (drop (4 * k) (concat (map f [0..<n]))) = f k"
  using assms(2)
proof (induction n)
  case 0
  then show ?case by simp
next
  case (Suc n)
  have len: "length (concat (map f [0..<n])) = 4 * n"
    by (rule concat_blocks_length) (rule assms(1))
  show ?case
  proof (cases "k = n")
    case True
    then show ?thesis using len assms(1) [of n] by simp
  next
    case False
    with Suc.prems have kn: "k < n" by simp
    then have "4 * k + 4 \<le> length (concat (map f [0..<n]))" using len by simp
    then have "take 4 (drop (4 * k) (concat (map f [0..<n]) @ f n))
        = take 4 (drop (4 * k) (concat (map f [0..<n])))"
      by simp
    then show ?thesis using Suc.IH [OF kn] by simp
  qed
qed

lemma heatMapPixels_spec:
  assumes "same_size a b"
  shows "heatMapPixels a b = Inr (concat (map (heat_pixel (data a) (data b)) [0..<iwidth a * iheight a]))"
proof -
  let ?n = "iwidth a * iheight a"
  have l: "length (data a) = 4 * ?n" "length (data b) = 4 * ?n"
    using assms by (simp_all add: same_size_def well_formed_def)
  have "heat_loop (data a) (data b) (4 * 0) (replicate (4 * ?n) 0) =
      Inr (take (4 * 0) (replicate (4 * ?n) 0) @ concat (map (heat_pixel (data a) (data b)) [0..<?n]))"
    by (rule heat_loop_spec [OF l]) simp_all
  then show ?thesis by (simp add: heatMapPixels_def)
qed

lemma intensity_spec_same: "intensity_spec d d k = 0"
  by (simp add: intensity_spec_def binary64_zero)

lemma heat_pixel_same:
  "heat_pixel d d k = (if chan d k 3 = 255 then [0, 0, 255, 30] else [0, 0, 0, 0])"
  by (simp add: heat_pixel_def intensity_spec_same getHeatMapColor_low toUint8Clamp_def binary64_zero)

text \<open>
  C9, as the code has it. For two well-formed bitmaps of the same size the loop fills
  the whole buffer without an exception. A pixel whose reference alpha is 255 receives
  the ramp colour of its intensity and the alpha \<open>max 30 (intensity * 225)\<close> (the
  intensity and the product being doubles), which the byte buffer stores rounded to the
  nearest integer; a pixel whose reference alpha is
  below 255 receives (0,0,0,0). For two identical bitmaps every pixel with reference
  alpha 255 is blue (0,0,255) with alpha 30, and every other pixel is (0,0,0,0).
\<close>

theorem heat_map_pixels:
  assumes "same_size a b"
  shows "(\<exists>out. heatMapPixels a b = Inr out \<and> length out = 4 * (iwidth a * iheight a)
           \<and> (\<forall>k < iwidth a * iheight a.
                 (chan (data a) k 3 = 255 \<longrightarrow>
                    (\<exists>c. getHeatMapColor (Some (intensity_spec (data a) (data b) k)) = Inr c
                       \<and> take 4 (drop (4 * k) out) =
                           [word_of_int (rgb_r c), word_of_int (rgb_g c), word_of_int (rgb_b c),
                            toUint8Clamp (Some (max 30 (binary64 (intensity_spec (data a) (data b) k * 225))))]))
               \<and> (chan (data a) k 3 \<noteq> 255 \<longrightarrow> take 4 (drop (4 * k) out) = [0, 0, 0, 0])))
       \<and> (\<exists>out. heatMapPixels a a = Inr out
           \<and> (\<forall>k < iwidth a * iheight a.
                 take 4 (drop (4 * k) out)
                   = (if chan (data a) k 3 = 255 then [0, 0, 255, 30] else [0, 0, 0, 0])))"
proof -
  let ?n = "iwidth a * iheight a"
  let ?out = "concat (map (heat_pixel (data a) (data b)) [0..<?n])"
  let ?same = "concat (map (heat_pixel (data a) (data a)) [0..<?n])"
  have aa: "same_size a a" using assms by (simp add: same_size_def)
  have px: "take 4 (drop (4 * k) (concat (map (heat_pixel d1 d2) [0..<?n]))) = heat_pixel d1 d2 k"
    if "k < ?n" for k d1 d2
    by (rule concat_blocks_nth [OF heat_pixel_length that])
  have len: "length ?out = 4 * ?n"
    by (rule concat_blocks_length [OF heat_pixel_length])
  have opaque: "\<exists>c. getHeatMapColor (Some (intensity_spec (data a) (data b) k)) = Inr c
        \<and> take 4 (drop (4 * k) ?out) =
            [word_of_int (rgb_r c), word_of_int (rgb_g c), word_of_int (rgb_b c),
             toUint8Clamp (Some (max 30 (binary64 (intensity_spec (data a) (data b) k * 225))))]"
    if "k < ?n" and "chan (data a) k 3 = 255" for k
  proof -
    from getHeatMapColor_ok [of "intensity_spec (data a) (data b) k"] obtain c where
      c: "getHeatMapColor (Some (intensity_spec (data a) (data b) k)) = Inr c" by blast
    then have "heat_pixel (data a) (data b) k =
        [word_of_int (rgb_r c), word_of_int (rgb_g c), word_of_int (rgb_b c),
         toUint8Clamp (Some (max 30 (binary64 (intensity_spec (data a) (data b) k * 225))))]"
      using that(2) by (simp add: heat_pixel_def)
    with c px [OF that(1)] show ?thesis by simp
  qed
  have clear: "take 4 (drop (4 * k) ?out) = [0, 0, 0, 0]"
    if "k < ?n" and "chan (data a) k 3 \<noteq> 255" for k
    using px [OF that(1)] that(2) by (simp add: heat_pixel_def)
  have same: "take 4 (drop (4 * k) ?same)
      = (if chan (data a) k 3 = 255 then [0, 0, 255, 30] else [0, 0, 0, 0])"
    if "k < ?n" for k
    using px [OF that] by (simp only: heat_pixel_same)
  have first: "\<exists>out. heatMapPixels a b = Inr out \<and> length out = 4 * ?n
           \<and> (\<forall>k < ?n.
                 (chan (data a) k 3 = 255 \<longrightarrow>
                    (\<exists>c. getHeatMapColor (Some (intensity_spec (data a) (data b) k)) = Inr c
                       \<and> take 4 (drop (4 * k) out) =
                           [word_of_int (rgb_r c), word_of_int (rgb_g c), word_of_int (rgb_b c),
                            toUint8Clamp (Some (max 30 (binary64 (intensity_spec (data a) (data b) k * 225))))]))
               \<and> (chan (data a) k 3 \<noteq> 255 \<longrightarrow> take 4 (drop (4 * k) out) = [0, 0, 0, 0]))"
    using heatMapPixels_spec [OF assms] len opaque clear by (intro exI [of _ ?out]) blast
  have second: "\<exists>out. heatMapPixels a a = Inr out
           \<and> (\<forall>k < ?n. take 4 (drop (4 * k) out)
                   = (if chan (data a) k 3 = 255 then [0, 0, 255, 30] else [0, 0, 0, 0]))"
    using heatMapPixels_spec [OF aa] same by (intro exI [of _ ?same]) blast
  from first second show ?thesis by (rule conjI)
qed

lemma two_pixels_intensity:
  "intensity_spec (data two_pixels_a) (data two_pixels_b) 0 = 2472564501301449 / 18014398509481984"
  by (simp add: intensity_spec_def chan_def two_pixels_a_def two_pixels_b_def b64)

lemma two_pixels_heat: "heatMapPixels two_pixels_a two_pixels_b = Inr [0, 140, 255, 31, 0, 0, 0, 0]"
proof -
  have ss: "same_size two_pixels_a two_pixels_b"
    by (simp add: same_size_def well_formed_def two_pixels_a_def two_pixels_b_def)
  have i0: "intensity_spec (data two_pixels_a) (data two_pixels_b) 0
      = 2472564501301449 / 18014398509481984"
    by (rule two_pixels_intensity)
  have c0: "getHeatMapColor (Some (2472564501301449 / 18014398509481984))
      = Inr \<lparr>rgb_r = 0, rgb_g = 140, rgb_b = 255\<rparr>"
    by (rule ramp_at_7_51)
  have a0: "toUint8Clamp (Some (max 30 (binary64 (2472564501301449 / 18014398509481984 * 225)))) = 31"
    by (simp add: toUint8Clamp_def b64)
  have p0: "heat_pixel (data two_pixels_a) (data two_pixels_b) 0 = [0, 140, 255, 31]"
    unfolding heat_pixel_def i0 c0 a0 by (simp add: chan_def two_pixels_a_def)
  have p1: "heat_pixel (data two_pixels_a) (data two_pixels_b) (Suc 0) = [0, 0, 0, 0]"
    by (simp add: heat_pixel_def chan_def two_pixels_a_def)
  have n: "iwidth two_pixels_a * iheight two_pixels_a = 2" by (simp add: two_pixels_a_def)
  have u: "[0..<2] = [0, Suc 0]" by (simp add: upt_rec)
  show ?thesis
    unfolding heatMapPixels_spec [OF ss] n u by (simp add: p0 p1)
qed

lemma two_pixels_same_heat: "heatMapPixels two_pixels_a two_pixels_a = Inr [0, 0, 255, 30, 0, 0, 0, 0]"
proof -
  have ss: "same_size two_pixels_a two_pixels_a"
    by (simp add: same_size_def well_formed_def two_pixels_a_def)
  have n: "iwidth two_pixels_a * iheight two_pixels_a = 2" by (simp add: two_pixels_a_def)
  have u: "[0..<2] = [0, Suc 0]" by (simp add: upt_rec)
  show ?thesis
    unfolding heatMapPixels_spec [OF ss] n u
    by (simp add: heat_pixel_same chan_def two_pixels_a_def)
qed

theorem heat_map_pixels_witness:
  "same_size two_pixels_a two_pixels_b
   \<and> 0 < iwidth two_pixels_a * iheight two_pixels_a
   \<and> chan (data two_pixels_a) 0 3 = 255
   \<and> chan (data two_pixels_a) 1 3 \<noteq> 255
   \<and> heatMapPixels two_pixels_a two_pixels_b = Inr [0, 140, 255, 31, 0, 0, 0, 0]
   \<and> heatMapPixels two_pixels_a two_pixels_a = Inr [0, 0, 255, 30, 0, 0, 0, 0]
   \<and> take 4 (drop (4 * 0) [0, 140, 255, 31, 0, 0, 0, 0 :: u8])
        = [0, 140, 255, toUint8Clamp (Some (max 30 (binary64 (intensity_spec (data two_pixels_a) (data two_pixels_b) 0 * 225))))]"
proof -
  have ss: "same_size two_pixels_a two_pixels_b"
    by (simp add: same_size_def well_formed_def two_pixels_a_def two_pixels_b_def)
  have al: "chan (data two_pixels_a) 0 3 = 255" "chan (data two_pixels_a) 1 3 \<noteq> 255"
    by (simp_all add: chan_def two_pixels_a_def)
  have n: "0 < iwidth two_pixels_a * iheight two_pixels_a" by (simp add: two_pixels_a_def)
  from heat_map_pixels [OF ss] obtain out where
    out: "heatMapPixels two_pixels_a two_pixels_b = Inr out"
    and px: "\<forall>k < iwidth two_pixels_a * iheight two_pixels_a.
          (chan (data two_pixels_a) k 3 = 255 \<longrightarrow>
             (\<exists>c. getHeatMapColor (Some (intensity_spec (data two_pixels_a) (data two_pixels_b) k)) = Inr c
                \<and> take 4 (drop (4 * k) out) =
                    [word_of_int (rgb_r c), word_of_int (rgb_g c), word_of_int (rgb_b c),
                     toUint8Clamp (Some (max 30 (binary64 (intensity_spec (data two_pixels_a) (data two_pixels_b) k * 225))))]))"
    by blast
  from px [rule_format, of 0, OF n al(1)] obtain c :: rgb where
    c: "take 4 (drop (4 * 0) out) =
          [word_of_int (rgb_r c), word_of_int (rgb_g c), word_of_int (rgb_b c),
           toUint8Clamp (Some (max 30 (binary64 (intensity_spec (data two_pixels_a) (data two_pixels_b) 0 * 225))))]"
    by blast
  from out two_pixels_heat have o: "out = [0, 140, 255, 31, 0, 0, 0, 0]" by simp
  from c have "take 4 (drop (4 * 0) [0, 140, 255, 31, 0, 0, 0, 0 :: u8])
        = [0, 140, 255, toUint8Clamp (Some (max 30 (binary64 (intensity_spec (data two_pixels_a) (data two_pixels_b) 0 * 225))))]"
    unfolding o by simp
  with ss al n two_pixels_heat two_pixels_same_heat show ?thesis by blast
qed

text \<open>A half-transparent pixel compared with itself is written as (0,0,0,0), neither blue
  nor of alpha 30; and a difference of 105 in one channel gives the alpha
  \<open>max 30 (intensity * 225)\<close>, the double nearest to \<open>525/17\<close> (about 30.88), stored
  as 31.\<close>

theorem heat_map_transparent_counterexample:
  "same_size semi_pixel semi_pixel
   \<and> heatMapPixels semi_pixel semi_pixel = Inr [0, 0, 0, 0]
   \<and> heatMapPixels two_pixels_a two_pixels_b = Inr [0, 140, 255, 31, 0, 0, 0, 0]
   \<and> max 30 (binary64 (intensity_spec (data two_pixels_a) (data two_pixels_b) 0 * 225))
        = 8692609574887907 / 281474976710656"
proof -
  have ss: "same_size semi_pixel semi_pixel"
    by (simp add: same_size_def well_formed_def semi_pixel_def)
  have n: "iwidth semi_pixel * iheight semi_pixel = 1" by (simp add: semi_pixel_def)
  have p: "heat_pixel (data semi_pixel) (data semi_pixel) 0 = [0, 0, 0, 0]"
    by (simp add: heat_pixel_same chan_def semi_pixel_def)
  have h: "heatMapPixels semi_pixel semi_pixel = Inr [0, 0, 0, 0]"
    unfolding heatMapPixels_spec [OF ss] n by (simp add: p)
  have al: "max 30 (binary64 (intensity_spec (data two_pixels_a) (data two_pixels_b) 0 * 225))
      = 8692609574887907 / 281474976710656"
    unfolding two_pixels_intensity by (simp add: b64)
  show ?thesis using ss h two_pixels_heat al by simp
qed

subsection \<open>SSIM\<close>

lemma solid_nth:
  assumes "p < n" and "c < 4"
  shows "concat (replicate n [r, g, b, a]) ! (4 * p + c) = [r, g, b, a] ! c"
proof -
  have r: "replicate n [r, g, b, a] = map (\<lambda>_. [r, g, b, a]) [0..<n]"
    by (simp add: map_replicate_const)
  have t: "take 4 (drop (4 * p) (concat (replicate n [r, g, b, a]))) = [r, g, b, a]"
    unfolding r by (rule concat_blocks_nth) (simp_all add: assms)
  have "concat (replicate n [r, g, b, a]) ! (4 * p + c)
      = take 4 (drop (4 * p) (concat (replicate n [r, g, b, a]))) ! c"
    using assms by (simp add: concat_blocks_length [of "\<lambda>_. [r, g, b, a]" n, folded r])
  then show ?thesis by (simp only: t)
qed

lemma solid_length: "length (data (solid w h r g b a)) = 4 * (w * h)"
  by (simp add: solid_def length_concat sum_list_replicate)

lemma solid_rd:
  assumes "p < w * h"
  shows "rd (data (solid w h r g b a)) (4 * p) = Some (real (unat r))"
    and "rd (data (solid w h r g b a)) (4 * p + 1) = Some (real (unat g))"
    and "rd (data (solid w h r g b a)) (4 * p + 2) = Some (real (unat b))"
    and "rd (data (solid w h r g b a)) (4 * p + 3) = Some (real (unat a))"
  using assms solid_nth [of p "w * h" 0 r g b a] solid_nth [of p "w * h" 1 r g b a]
    solid_nth [of p "w * h" 2 r g b a] solid_nth [of p "w * h" 3 r g b a]
    solid_length [of w h r g b a]
  by (simp_all add: rd_def) (simp_all add: solid_def)

lemma luminance_solid:
  assumes "p < w * h"
  shows "luminance rnd (data (solid w h r g b a)) (4 * p) = lum_of rnd r g b"
  unfolding luminance_def lum_of_def rdj_def solid_rd [OF assms] by simp

lemma pixel_step_solid:
  assumes "p < w * h" and "a \<noteq> 0"
  shows "pixel_step rnd (data (solid w h r g b a)) (data (solid w h r' g' b' a')) (p * 4)
           = const_step rnd (lum_of rnd r g b) (lum_of rnd r' g' b')"
proof -
  have m: "p * 4 = 4 * p" by simp
  have nz: "real (unat a) \<noteq> 0" using assms(2) by (simp add: unsigned_eq_0_iff)
  show ?thesis
    unfolding m pixel_step_def const_step_def luminance_solid [OF assms(1)]
      solid_rd(4) [OF assms(1)] num_eq_def Let_def
    using nz by (intro ext) simp
qed

lemma window_stats_solid:
  assumes "x + 8 \<le> w" and "y + 8 \<le> h" and "a \<noteq> 0"
  shows "window_stats rnd (data (solid w h r g b a)) (data (solid w h r' g' b' a')) w x y
           = fold (\<lambda>j. fold (\<lambda>i. const_step rnd (lum_of rnd r g b) (lum_of rnd r' g' b')) [0..<8])
               [0..<8] win_init"
proof -
  have "pixel_step rnd (data (solid w h r g b a)) (data (solid w h r' g' b' a'))
            (((y + j) * w + (x + i)) * 4)
          = const_step rnd (lum_of rnd r g b) (lum_of rnd r' g' b')"
    if "j < 8" and "i < 8" for i j
  proof (rule pixel_step_solid [OF _ assms(3)])
    have "(y + j) * w + (x + i) < (y + j) * w + w" using that assms(1) by simp
    also have "\<dots> = (y + j + 1) * w" by simp
    also have "\<dots> \<le> h * w" using that assms(2) by (intro mult_le_mono1) simp
    finally show "(y + j) * w + (x + i) < w * h" by (simp add: mult.commute)
  qed
  note step = this
  have inner: "fold (\<lambda>i. pixel_step rnd (data (solid w h r g b a)) (data (solid w h r' g' b' a'))
                      (((y + j) * w + (x + i)) * 4)) [0..<8]
             = fold (\<lambda>i. const_step rnd (lum_of rnd r g b) (lum_of rnd r' g' b')) [0..<8]"
    if "j < 8" for j
  proof (rule ext)
    fix acc
    show "fold (\<lambda>i. pixel_step rnd (data (solid w h r g b a)) (data (solid w h r' g' b' a'))
                      (((y + j) * w + (x + i)) * 4)) [0..<8] acc
             = fold (\<lambda>i. const_step rnd (lum_of rnd r g b) (lum_of rnd r' g' b')) [0..<8] acc"
    proof (rule fold_cong)
      fix i
      assume "i \<in> set [0..<8]"
      then have "i < (8::nat)" by simp
      with that show "pixel_step rnd (data (solid w h r g b a)) (data (solid w h r' g' b' a'))
                      (((y + j) * w + (x + i)) * 4)
          = const_step rnd (lum_of rnd r g b) (lum_of rnd r' g' b')"
        by (rule step)
    qed (rule refl)+
  qed
  show ?thesis
    unfolding window_stats_def WINDOW_SIZE_def
  proof (rule fold_cong)
    fix j
    assume "j \<in> set [0..<8]"
    then have "j < (8::nat)" by simp
    then show "fold (\<lambda>i. pixel_step rnd (data (solid w h r g b a)) (data (solid w h r' g' b' a'))
                      (((y + j) * w + (x + i)) * 4)) [0..<8]
             = fold (\<lambda>i. const_step rnd (lum_of rnd r g b) (lum_of rnd r' g' b')) [0..<8]"
      by (rule inner)
  qed (rule refl)+
qed

lemma ssim_cols_fold:
  "k \<le> wd div WINDOW_SIZE \<Longrightarrow>
   ssim_cols rnd d1 d2 wd y (k * WINDOW_SIZE) acc =
     fold (\<lambda>x. window_step rnd (window_stats rnd d1 d2 wd x y))
       (map (\<lambda>k. k * WINDOW_SIZE) [k..<wd div WINDOW_SIZE]) acc"
proof (induction "wd div WINDOW_SIZE - k" arbitrary: k acc)
  case 0
  then have k: "k = wd div WINDOW_SIZE" by simp
  then have "\<not> int (k * WINDOW_SIZE) \<le> int wd - int WINDOW_SIZE"
    unfolding WINDOW_SIZE_def by presburger
  then show ?case
    using k by (cases acc) (simp add: ssim_cols.simps del: of_nat_mult)
next
  case (Suc n)
  then have lt: "k < wd div WINDOW_SIZE" and n: "n = wd div WINDOW_SIZE - Suc k"
    and le: "Suc k \<le> wd div WINDOW_SIZE" by simp_all
  have c: "int (k * WINDOW_SIZE) \<le> int wd - int WINDOW_SIZE"
    using lt unfolding WINDOW_SIZE_def by presburger
  have up: "[k..<wd div WINDOW_SIZE] = k # [Suc k..<wd div WINDOW_SIZE]"
    using lt by (simp add: upt_conv_Cons)
  have nx: "k * WINDOW_SIZE + WINDOW_SIZE = Suc k * WINDOW_SIZE" by simp
  obtain t c0 where acc: "acc = (t, c0)" by (cases acc)
  have "ssim_cols rnd d1 d2 wd y (k * WINDOW_SIZE) acc =
      ssim_cols rnd d1 d2 wd y (Suc k * WINDOW_SIZE)
        (window_step rnd (window_stats rnd d1 d2 wd (k * WINDOW_SIZE) y) acc)"
    unfolding acc
    by (subst ssim_cols.simps) (simp only: c if_True Let_def nx window_step_def contributes_def
        fst_conv snd_conv de_Morgan_conj not_not split: if_splits, simp)
  then show ?case
    using Suc.hyps(1) [OF n le] by (simp add: up)
qed

lemma ssim_rows_fold:
  "k \<le> ht div WINDOW_SIZE \<Longrightarrow>
   ssim_rows rnd d1 d2 wd ht (k * WINDOW_SIZE) acc =
     fold (\<lambda>y. ssim_cols rnd d1 d2 wd y 0)
       (map (\<lambda>k. k * WINDOW_SIZE) [k..<ht div WINDOW_SIZE]) acc"
proof (induction "ht div WINDOW_SIZE - k" arbitrary: k acc)
  case 0
  then have k: "k = ht div WINDOW_SIZE" by simp
  then have "\<not> int (k * WINDOW_SIZE) \<le> int ht - int WINDOW_SIZE"
    unfolding WINDOW_SIZE_def by presburger
  then show ?case
    using k by (subst ssim_rows.simps) (simp del: of_nat_mult)
next
  case (Suc n)
  then have lt: "k < ht div WINDOW_SIZE" and n: "n = ht div WINDOW_SIZE - Suc k"
    and le: "Suc k \<le> ht div WINDOW_SIZE" by simp_all
  have c: "int (k * WINDOW_SIZE) \<le> int ht - int WINDOW_SIZE"
    using lt unfolding WINDOW_SIZE_def by presburger
  have up: "[k..<ht div WINDOW_SIZE] = k # [Suc k..<ht div WINDOW_SIZE]"
    using lt by (simp add: upt_conv_Cons)
  have nx: "k * WINDOW_SIZE + WINDOW_SIZE = Suc k * WINDOW_SIZE" by simp
  have "ssim_rows rnd d1 d2 wd ht (k * WINDOW_SIZE) acc =
      ssim_rows rnd d1 d2 wd ht (Suc k * WINDOW_SIZE) (ssim_cols rnd d1 d2 wd (k * WINDOW_SIZE) 0 acc)"
    by (subst ssim_rows.simps) (simp only: c if_True nx)
  then show ?case
    using Suc.hyps(1) [OF n le] by (simp add: up)
qed

lemma nested_fold_concat:
  "fold (\<lambda>y. fold (\<lambda>x. g x y) xs) ys acc
     = fold (\<lambda>(x, y). g x y) (concat (map (\<lambda>y. map (\<lambda>x. (x, y)) xs) ys)) acc"
proof (induction ys arbitrary: acc)
  case Nil
  show ?case by simp
next
  case (Cons y ys)
  have "fold (\<lambda>(x, y). g x y) (map (\<lambda>x. (x, y)) xs) acc = fold (\<lambda>x. g x y) xs acc" for acc
    by (simp add: fold_map comp_def)
  then show ?case using Cons.IH by simp
qed

lemma fold_window_step:
  "fold (window_step rnd) sts (t, c) =
     (fold (\<lambda>v total. fadd rnd total v) (map (window_ssim rnd) (filter contributes sts)) t,
      c + length (filter contributes sts))"
  by (induction sts arbitrary: t c) (simp_all add: window_step_def)

lemma ssim_loops_spec:
  "ssim_rows rnd (data a) (data b) (iwidth a) (iheight a) 0 (Num 0, 0) =
     (fold (\<lambda>v total. fadd rnd total v) (window_values rnd a b) (Num 0),
      length (window_values rnd a b))"
proof -
  let ?g = "\<lambda>x y. window_step rnd (window_stats rnd (data a) (data b) (iwidth a) x y)"
  have cols: "ssim_cols rnd (data a) (data b) (iwidth a) y 0
      = fold (\<lambda>x. ?g x y) (window_origins (iwidth a))" for y
  proof (rule ext)
    fix acc
    show "ssim_cols rnd (data a) (data b) (iwidth a) y 0 acc
      = fold (\<lambda>x. ?g x y) (window_origins (iwidth a)) acc"
      using ssim_cols_fold [of 0 "iwidth a" rnd "data a" "data b" y acc]
      by (simp add: window_origins_def)
  qed
  have "ssim_rows rnd (data a) (data b) (iwidth a) (iheight a) 0 (Num 0, 0)
      = fold (\<lambda>y. ssim_cols rnd (data a) (data b) (iwidth a) y 0) (window_origins (iheight a)) (Num 0, 0)"
    using ssim_rows_fold [of 0 "iheight a" rnd "data a" "data b" "iwidth a" "(Num 0, 0)"]
    by (simp add: window_origins_def)
  also have "\<dots> = fold (\<lambda>y. fold (\<lambda>x. ?g x y) (window_origins (iwidth a)))
      (window_origins (iheight a)) (Num 0, 0)"
    by (simp only: cols)
  also have "\<dots> = fold (\<lambda>(x, y). ?g x y) (windows a) (Num 0, 0)"
    unfolding windows_def by (rule nested_fold_concat)
  also have "\<dots> = fold (window_step rnd)
      (map (\<lambda>(x, y). window_stats rnd (data a) (data b) (iwidth a) x y) (windows a)) (Num 0, 0)"
    by (simp add: fold_map comp_def case_prod_unfold)
  also have "\<dots> = (fold (\<lambda>v total. fadd rnd total v) (window_values rnd a b) (Num 0),
      length (window_values rnd a b))"
    by (simp add: fold_window_step window_values_def)
  finally show ?thesis .
qed

lemma calculateSSIM_spec: "calculateSSIM rnd a b = ssim_spec rnd a b"
  by (simp add: calculateSSIM_def ssim_spec_def ssim_loops_spec Let_def)





















lemma lum_of_val: "lum_of rnd r g b = Num (lum_val rnd r g b)"
  by (simp add: lum_of_def lum_val_def fadd_def fmul_def lit_def)

lemma const_step_fold:
  "fold (\<lambda>i. const_step rnd (Num lx) (Num ly)) xs
     \<lparr>sumX = Num a, sumY = Num b, sumX2 = Num c, sumY2 = Num d, sumXY = Num e,
      numPixels = n, windowHasOpaquePixel = opq\<rparr>
   = \<lparr>sumX = Num (fold (\<lambda>i s. rnd (s + lx)) xs a),
      sumY = Num (fold (\<lambda>i s. rnd (s + ly)) xs b),
      sumX2 = Num (fold (\<lambda>i s. rnd (s + rnd (lx * lx))) xs c),
      sumY2 = Num (fold (\<lambda>i s. rnd (s + rnd (ly * ly))) xs d),
      sumXY = Num (fold (\<lambda>i s. rnd (s + rnd (lx * ly))) xs e),
      numPixels = n + length xs, windowHasOpaquePixel = (opq \<or> xs \<noteq> [])\<rparr>"
  by (induction xs arbitrary: a b c d e n opq)
    (simp_all add: const_step_def fadd_def fsq_def fmul_def)

lemma const_step_fold2:
  "fold (\<lambda>j. fold (\<lambda>i. const_step rnd (Num lx) (Num ly)) xs) ys
     \<lparr>sumX = Num a, sumY = Num b, sumX2 = Num c, sumY2 = Num d, sumXY = Num e,
      numPixels = n, windowHasOpaquePixel = opq\<rparr>
   = \<lparr>sumX = Num (fold (\<lambda>j. fold (\<lambda>i s. rnd (s + lx)) xs) ys a),
      sumY = Num (fold (\<lambda>j. fold (\<lambda>i s. rnd (s + ly)) xs) ys b),
      sumX2 = Num (fold (\<lambda>j. fold (\<lambda>i s. rnd (s + rnd (lx * lx))) xs) ys c),
      sumY2 = Num (fold (\<lambda>j. fold (\<lambda>i s. rnd (s + rnd (ly * ly))) xs) ys d),
      sumXY = Num (fold (\<lambda>j. fold (\<lambda>i s. rnd (s + rnd (lx * ly))) xs) ys e),
      numPixels = n + length ys * length xs,
      windowHasOpaquePixel = (opq \<or> (ys \<noteq> [] \<and> xs \<noteq> []))\<rparr>"
  by (induction ys arbitrary: a b c d e n opq) (auto simp: const_step_fold)

lemma window_stats_solid8:
  assumes "a \<noteq> 0"
  shows "window_stats rnd (data (solid 8 8 r g b a)) (data (solid 8 8 r' g' b' a')) 8 0 0
           = solid_stats rnd (lum_val rnd r g b) (lum_val rnd r' g' b')"
proof -
  have "window_stats rnd (data (solid 8 8 r g b a)) (data (solid 8 8 r' g' b' a')) 8 0 0
      = fold (\<lambda>j. fold (\<lambda>i. const_step rnd (Num (lum_val rnd r g b)) (Num (lum_val rnd r' g' b'))) [0..<8])
          [0..<8] win_init"
    using window_stats_solid [of 0 8 0 8 a rnd r g b r' g' b' a'] assms
    by (simp add: lum_of_val)
  also have "\<dots> = solid_stats rnd (lum_val rnd r g b) (lum_val rnd r' g' b')"
    unfolding win_init_def const_step_fold2 solid_stats_def chain_def by simp
  finally show ?thesis .
qed

lemma windows_8x8: "iwidth a = 8 \<Longrightarrow> iheight a = 8 \<Longrightarrow> windows a = [(0, 0)]"
  by (simp add: windows_def window_origins_def WINDOW_SIZE_def)

lemma calculateSSIM_solid8:
  assumes "a \<noteq> 0"
  shows "calculateSSIM rnd (solid 8 8 r g b a) (solid 8 8 r' g' b' a')
           = js_max (Num 0)
               (js_min (Num 1)
                  (fdiv rnd
                     (fadd rnd (Num 0)
                        (window_ssim rnd (solid_stats rnd (lum_val rnd r g b) (lum_val rnd r' g' b'))))
                     (Num 1)))"
proof -
  have d: "iwidth (solid 8 8 r g b a) = 8" "iheight (solid 8 8 r g b a) = 8"
    by (simp_all add: solid_def)
  have c: "contributes (solid_stats rnd lx ly)" for lx ly
    by (simp add: contributes_def solid_stats_def)
  have "window_values rnd (solid 8 8 r g b a) (solid 8 8 r' g' b' a')
      = [window_ssim rnd (solid_stats rnd (lum_val rnd r g b) (lum_val rnd r' g' b'))]"
    unfolding window_values_def windows_8x8 [OF d] d
    by (simp add: window_stats_solid8 [OF assms] c)
  then show ?thesis
    by (simp add: calculateSSIM_spec ssim_spec_def d WINDOW_SIZE_def)
qed





lemma c1_b64: "C1 binary64 = Num (1830291036061041 / 281474976710656)"
  by (simp add: C1_def fsq_def fmul_def lit_def b64)

lemma c2_b64: "C2 binary64 = Num (4118154831137341 / 70368744177664)"
  by (simp add: C2_def fsq_def fmul_def lit_def b64)



text \<open>The double nearest to 0.1, as a check of \<open>binary64\<close>.\<close>

lemma binary64_tenth: "binary64 (1 / 10) = 3602879701896397 / 36028797018963968"
  by (simp add: b64)

lemma solid_well_formed: "well_formed (solid w h r g b a)"
  by (simp add: well_formed_def solid_length) (simp add: solid_def)


lemma lum_black: "lum_val binary64 0 0 0 = 0"
  by (simp add: lum_val_def b64)

lemma lum_white: "lum_val binary64 255 255 255 = 255"
  by (simp add: lum_val_def b64)

lemma chain_zero: "chain binary64 0 = 0"
  by (simp add: chain_def upt_rec binary64_def)

lemma chain_255: "chain binary64 255 = 16320"
  by (simp add: chain_def upt_rec b64)

lemma chain_65025: "chain binary64 65025 = 4161600"
  by (simp add: chain_def upt_rec b64)

lemma window_black_white:
  "window_ssim binary64 (solid_stats binary64 0 255) = Num (922244979187559 / 9223372036854775808)"
proof -
  have sq: "binary64 (0 * 0) = 0" "binary64 (255 * 255) = 65025" "binary64 (0 * 255) = 0"
    by (simp_all add: b64)
  show ?thesis
    unfolding solid_stats_def sq chain_zero chain_255 chain_65025 window_ssim_def Let_def
      c1_b64 c2_b64
    by (simp add: fdiv_def fsub_def fmul_def fadd_def fsq_def js_sub_def b64)
qed

lemma black_white_binary64:
  "calculateSSIM binary64 black8 white8 = Num (922244979187559 / 9223372036854775808)"
  unfolding black8_def white8_def
  by (simp add: calculateSSIM_solid8 lum_black lum_white window_black_white fadd_def fdiv_def b64)

text \<open>
  C5, as the code has it. When the width or the height is below 8 the function returns
  1 at once, whatever the pixel data and whatever the rounding: no window is looked at.
  An image of exactly 8 by 8 pixels is not short-circuited (the guard is
  \<^verbatim>\<open>width < WINDOW_SIZE || height < WINDOW_SIZE\<close>): its one window is evaluated.
\<close>

theorem ssim_short_circuit:
  "(iwidth a < 8 \<or> iheight a < 8 \<longrightarrow> calculateSSIM rnd a b = Num 1)
   \<and> (iwidth a = 8 \<and> iheight a = 8 \<longrightarrow>
        calculateSSIM rnd a b =
          (let w = window_stats rnd (data a) (data b) 8 0 0 in
           if contributes w
           then js_max (Num 0)
                  (js_min (Num 1) (fdiv rnd (fadd rnd (Num 0) (window_ssim rnd w)) (Num 1)))
           else Num 1))"
proof (intro conjI impI)
  assume "iwidth a < 8 \<or> iheight a < 8"
  then show "calculateSSIM rnd a b = Num 1"
    by (simp add: calculateSSIM_def WINDOW_SIZE_def)
next
  assume d: "iwidth a = 8 \<and> iheight a = 8"
  then have "windows a = [(0, 0)]" by (simp add: windows_8x8)
  then have "window_values rnd a b =
      map (window_ssim rnd) (filter contributes [window_stats rnd (data a) (data b) 8 0 0])"
    using d by (simp add: window_values_def)
  then show "calculateSSIM rnd a b =
          (let w = window_stats rnd (data a) (data b) 8 0 0 in
           if contributes w
           then js_max (Num 0)
                  (js_min (Num 1) (fdiv rnd (fadd rnd (Num 0) (window_ssim rnd w)) (Num 1)))
           else Num 1)"
    using d by (simp add: calculateSSIM_spec ssim_spec_def WINDOW_SIZE_def Let_def)
qed

theorem ssim_short_circuit_witness:
  "iwidth black7x8 < 8 \<and> calculateSSIM binary64 black7x8 white7x8 = Num 1
   \<and> iwidth black8 = 8 \<and> iheight black8 = 8
   \<and> contributes (window_stats binary64 (data black8) (data white8) 8 0 0)
   \<and> calculateSSIM binary64 black8 white8
       = js_max (Num 0)
           (js_min (Num 1)
              (fdiv binary64
                 (fadd binary64 (Num 0)
                    (window_ssim binary64 (window_stats binary64 (data black8) (data white8) 8 0 0)))
                 (Num 1)))"
proof -
  have h: "iwidth black7x8 < 8" "iwidth black8 = 8" "iheight black8 = 8"
    by (simp_all add: black7x8_def black8_def solid_def)
  have c: "contributes (window_stats binary64 (data black8) (data white8) 8 0 0)"
    unfolding black8_def white8_def
    by (simp add: window_stats_solid8 contributes_def solid_stats_def)
  from ssim_short_circuit [of black7x8 binary64 white7x8] ssim_short_circuit [of black8 binary64 white8]
    h c
  show ?thesis by simp
qed

text \<open>An opaque black and an opaque white 8 by 8 bitmap: the result is about 0.0001.\<close>

theorem ssim_8x8_counterexample:
  "same_size black8 white8 \<and> iwidth black8 \<le> 8 \<and> iheight black8 \<le> 8
   \<and> calculateSSIM binary64 black8 white8 = Num (922244979187559 / 9223372036854775808)
   \<and> calculateSSIM binary64 black8 white8 \<noteq> Num 1"
proof -
  have "same_size black8 white8"
    unfolding same_size_def black8_def white8_def
    by (simp add: solid_well_formed) (simp add: solid_def)
  moreover have "iwidth black8 \<le> 8" "iheight black8 \<le> 8"
    by (simp_all add: black8_def solid_def)
  ultimately show ?thesis by (simp add: black_white_binary64)
qed




end
